theory Spec2Isabelle
  imports Main "HOL-Library.Word"
begin

section \<open>Kickoff task database: data model\<close>

text \<open>
  The model follows \<^verbatim>\<open>TaskDatabase.cpp\<close> (the unnamed source part) and the structs of
  \<^verbatim>\<open>TaskDatabase.h\<close>.

  \<^item> \<^verbatim>\<open>TaskID\<close> is \<^verbatim>\<open>uint64_t\<close>: a 64-bit word.
  \<^item> \<^verbatim>\<open>std::time_t\<close> values are integers; every reading of the clock, \<^verbatim>\<open>std::time(nullptr)\<close>,
    is an argument of the operation that takes it. \<^verbatim>\<open>Task::markStarted\<close> reads the clock twice
    and so has two such arguments; the readings taken during one call of
    \<^verbatim>\<open>cleanupZombieTasks\<close> are one value.
  \<^item> A \<^verbatim>\<open>TaskPtr\<close> is a non-null \<^verbatim>\<open>std::shared_ptr<Task>\<close>: the address of a task object.
    Objects live in a store \<open>heap\<close>, so that the handle held by a caller, the entry of
    \<^verbatim>\<open>m_allTasksByID\<close> and the entry of \<^verbatim>\<open>m_pendingTasks\<close> alias one object. A null handle is
    \<open>None\<close> of type \<open>TaskPtr option\<close>.
  \<^item> The \<^verbatim>\<open>int\<close> counters of \<^verbatim>\<open>TaskStats\<close> are 32-bit words, read as signed values by \<open>sint\<close>;
    \<^verbatim>\<open>++\<close> and \<^verbatim>\<open>--\<close> wrap around, as the two's complement machine does. \<^verbatim>\<open>numFinished\<close> is a
    \<^verbatim>\<open>uint64_t\<close>: a 64-bit word.
\<close>

type_synonym TaskID = "64 word"
type_synonym time_t = int
type_synonym TaskPtr = nat

record TaskSchedule =
  requiredResources :: "string list"
  optionalResources :: "string list"
  workerUsage_FixedPoint :: "32 word"

datatype TaskState = Pending | Running | Canceling

record TaskRunStatus =
  wasCanceled :: bool
  startTime :: time_t
  heartbeatTime :: time_t

record TaskStatus =
  createTime :: time_t
  runStatus :: "TaskRunStatus option"

record TaskCreateInfo =
  command :: string
  schedule :: TaskSchedule

record Task =
  m_id :: TaskID
  m_command :: string
  m_schedule :: TaskSchedule
  m_status :: TaskStatus

type_synonym int32 = "32 word"

record TaskStats =
  numPending :: int32
  numRunning :: int32
  numCanceling :: int32
  numFinished :: "64 word"

text \<open>
  The database. \<open>m_allTasksByID\<close> is a \<^verbatim>\<open>std::map<TaskID, TaskPtr>\<close>: an association list kept
  in increasing key order, which is the order a range-for visits it in. \<open>m_pendingTasks\<close> is
  the set of pending handles (its declaration is not among the sources; the code inserts,
  erases and iterates it): a duplicate-free list in iteration order, ordered by address as a
  \<^verbatim>\<open>std::set<TaskPtr>\<close> is. \<open>finishedCalls\<close> is not program state: it is the observer's record
  of every call of \<^verbatim>\<open>markTaskFinished\<close>, in order, and nothing reads it.
\<close>

record world =
  heap :: "TaskPtr \<Rightarrow> Task"
  m_allTasksByID :: "(TaskID \<times> TaskPtr) list"
  m_pendingTasks :: "TaskPtr list"
  m_stats :: TaskStats
  finishedCalls :: "TaskPtr list"

subsection \<open>Containers\<close>

fun stdmap_replace :: "TaskID \<Rightarrow> TaskPtr \<Rightarrow> (TaskID \<times> TaskPtr) list \<Rightarrow> (TaskID \<times> TaskPtr) list" where
  "stdmap_replace k v [] = []"
| "stdmap_replace k v ((k', v') # m) =
     (if k = k' then (k, v) # m else (k', v') # stdmap_replace k v m)"

definition stdmap_assign :: "TaskID \<Rightarrow> TaskPtr \<Rightarrow> (TaskID \<times> TaskPtr) list \<Rightarrow> (TaskID \<times> TaskPtr) list" where
  \<comment> \<open>\<^verbatim>\<open>m[k] = v\<close>: the entry of \<open>k\<close> is overwritten, or a new entry is put at its place in key order\<close>
  "stdmap_assign k v m =
     (if map_of m k = None then insort_key fst (k, v) m else stdmap_replace k v m)"

fun stdmap_erase :: "TaskID \<Rightarrow> (TaskID \<times> TaskPtr) list \<Rightarrow> (TaskID \<times> TaskPtr) list" where
  "stdmap_erase k [] = []"
| "stdmap_erase k ((k', v') # m) = (if k = k' then stdmap_erase k m else (k', v') # stdmap_erase k m)"

definition stdset_insert :: "TaskPtr \<Rightarrow> TaskPtr list \<Rightarrow> TaskPtr list" where
  \<comment> \<open>no effect when the handle is already a member\<close>
  "stdset_insert p s = (if p \<in> set s then s else insort p s)"

fun stdset_erase :: "TaskPtr \<Rightarrow> TaskPtr list \<Rightarrow> TaskPtr list" where
  "stdset_erase p [] = []"
| "stdset_erase p (q # s) = (if p = q then stdset_erase p s else q # stdset_erase p s)"

subsection \<open>Task\<close>

definition TaskStats_init :: TaskStats where
  "TaskStats_init = \<lparr>numPending = 0, numRunning = 0, numCanceling = 0, numFinished = 0\<rparr>"

definition Task_new :: "TaskID \<Rightarrow> TaskCreateInfo \<Rightarrow> time_t \<Rightarrow> Task" where
  "Task_new ident startInfo now =
     \<lparr>m_id = ident, m_command = command startInfo, m_schedule = schedule startInfo,
      m_status = \<lparr>createTime = now, runStatus = None\<rparr>\<rparr>"

definition markStarted :: "time_t \<Rightarrow> time_t \<Rightarrow> Task \<Rightarrow> Task" where
  \<comment> \<open>\<open>now\<close> and \<open>now'\<close> are the two successive readings of the clock\<close>
  "markStarted now now' t =
     (if runStatus (m_status t) = None
      then t\<lparr>m_status := (m_status t)\<lparr>runStatus :=
             Some \<lparr>wasCanceled = False, startTime = now, heartbeatTime = now'\<rparr>\<rparr>\<rparr>
      else t)"

definition markShouldCancel :: "Task \<Rightarrow> bool \<times> Task" where
  "markShouldCancel t =
     (case runStatus (m_status t) of
        Some rs \<Rightarrow> (True, t\<lparr>m_status := (m_status t)\<lparr>runStatus := Some (rs\<lparr>wasCanceled := True\<rparr>)\<rparr>\<rparr>)
      | None \<Rightarrow> (False, t))"

definition heartbeat :: "time_t \<Rightarrow> Task \<Rightarrow> Task" where
  "heartbeat now t =
     (case runStatus (m_status t) of
        Some rs \<Rightarrow> t\<lparr>m_status := (m_status t)\<lparr>runStatus := Some (rs\<lparr>heartbeatTime := now\<rparr>)\<rparr>\<rparr>
      | None \<Rightarrow> t)"

definition getState :: "TaskStatus \<Rightarrow> TaskState" where
  "getState st =
     (case runStatus st of
        Some rs \<Rightarrow> (if wasCanceled rs then Canceling else Running)
      | None \<Rightarrow> Pending)"

subsection \<open>Queries\<close>

definition getTaskByID :: "TaskID \<Rightarrow> world \<Rightarrow> TaskPtr option" where
  "getTaskByID ident w = map_of (m_allTasksByID w) ident"

definition getTasksByStates :: "TaskState set \<Rightarrow> world \<Rightarrow> TaskPtr list" where
  "getTasksByStates states w =
     [task. (k, task) \<leftarrow> m_allTasksByID w, getState (m_status (heap w task)) \<in> states]"

definition getTotalTaskCount :: "world \<Rightarrow> int32" where
  \<comment> \<open>\<^verbatim>\<open>(int)m_allTasksByID.size()\<close>: the cast keeps the low 32 bits of the size\<close>
  "getTotalTaskCount w = of_nat (length (m_allTasksByID w))"

definition getStats :: "world \<Rightarrow> TaskStats" where
  "getStats w = m_stats w"

subsection \<open>ID allocation\<close>

text \<open>
  \<^verbatim>\<open>fastRand64\<close> is the environment's: the list \<open>rnd\<close> holds its successive results. The loop of
  \<^verbatim>\<open>getUnusedTaskID\<close> may run for as long as the samples collide, so the list is also the
  loop's fuel: \<open>OutOfSamples\<close> says that the loop was still running when the supplied samples
  were used up. \<open>Failed\<close> is the call of \<^verbatim>\<open>fail\<close>, which terminates the process. The second
  component counts the calls of \<^verbatim>\<open>printWarning\<close>.
\<close>

datatype 'a sampled = Found 'a | Failed | OutOfSamples

fun getUnusedTaskID_loop ::
  "world \<Rightarrow> TaskID \<Rightarrow> int \<Rightarrow> nat \<Rightarrow> TaskID list \<Rightarrow> TaskID sampled \<times> nat" where
  "getUnusedTaskID_loop w randID sanityCount warnings rnd =
     (if getTaskByID randID w \<noteq> None then
        (case rnd of
           [] \<Rightarrow> (OutOfSamples, warnings)
         | r # rnd' \<Rightarrow>
             if sanityCount + 1 > 10 then getUnusedTaskID_loop w r (sanityCount + 1) (warnings + 1) rnd'
             else if sanityCount + 1 > 1000 then (Failed, warnings)
             else getUnusedTaskID_loop w r (sanityCount + 1) warnings rnd')
      else (Found randID, warnings))"

declare getUnusedTaskID_loop.simps [simp del]

definition getUnusedTaskID :: "TaskID list \<Rightarrow> world \<Rightarrow> TaskID sampled \<times> nat" where
  "getUnusedTaskID rnd w =
     (case rnd of
        [] \<Rightarrow> (OutOfSamples, 0)
      | r # rnd' \<Rightarrow> getUnusedTaskID_loop w r 0 0 rnd')"

definition createTask ::
  "TaskCreateInfo \<Rightarrow> TaskID list \<Rightarrow> TaskPtr \<Rightarrow> time_t \<Rightarrow> world \<Rightarrow> (TaskPtr \<times> world) sampled" where
  \<comment> \<open>\<open>task\<close> is the address \<^verbatim>\<open>std::make_shared\<close> returns for the new object.\<close>
  "createTask info rnd task now w =
     (case fst (getUnusedTaskID rnd w) of
        Found ident \<Rightarrow>
          Found (task,
            w\<lparr>heap := (heap w)(task := Task_new ident info now),
              m_allTasksByID := stdmap_assign ident task (m_allTasksByID w),
              m_pendingTasks := stdset_insert task (m_pendingTasks w),
              m_stats := (m_stats w)\<lparr>numPending := numPending (m_stats w) + 1\<rparr>\<rparr>)
      | Failed \<Rightarrow> Failed
      | OutOfSamples \<Rightarrow> OutOfSamples)"

subsection \<open>Scores in single precision\<close>

text \<open>
  The score of \<^verbatim>\<open>takeTaskToRun\<close> is a \<^verbatim>\<open>float\<close>. A finite binary32 value \<open>v\<close> is represented
  by the integer \<open>v * 2^149\<close> (every finite binary32 value is a multiple of \<open>2^-149\<close>), so
  that comparison of floats is comparison of integers. \<open>f32_round num den\<close> is the binary32
  value nearest to the fraction \<open>num / den\<close>, ties to even (IEEE 754 arithmetic without excess
  precision); the operands that occur are non-negative and far below the overflow range.
\<close>

type_synonym float32 = int

fun bit_length :: "nat \<Rightarrow> nat" where
  "bit_length n = (if n = 0 then 0 else Suc (bit_length (n div 2)))"

declare bit_length.simps [simp del]

definition f32_round :: "nat \<Rightarrow> nat \<Rightarrow> float32" where
  "f32_round num den =
     (let scaled = num * 2 ^ 149;
          ulp = 2 ^ (bit_length (scaled div den) - 24);
          q = scaled div (den * ulp);
          r = scaled mod (den * ulp)
      in int (ulp * (if 2 * r < den * ulp then q
                     else if den * ulp < 2 * r then q + 1
                     else if even q then q else q + 1)))"

definition f32_of_nat :: "nat \<Rightarrow> float32" where
  \<comment> \<open>the conversions \<^verbatim>\<open>float(matchCount)\<close> and \<^verbatim>\<open>float(size)\<close>\<close>
  "f32_of_nat n = f32_round n 1"

definition f32_div :: "float32 \<Rightarrow> float32 \<Rightarrow> float32" where
  \<comment> \<open>division of a non-negative by a positive value\<close>
  "f32_div x y = f32_round (nat x) (nat y)"

definition f32_minus_one :: float32 where
  "f32_minus_one = - (2 ^ 149)"

definition f32_0_999 :: float32 where
  \<comment> \<open>the literal \<^verbatim>\<open>0.999f\<close>\<close>
  "f32_0_999 = f32_round 999 1000"

subsection \<open>Dispatch\<close>

fun matchReq :: "string set \<Rightarrow> string list \<Rightarrow> bool" where
  "matchReq haveResources [] = True"
| "matchReq haveResources (res # rest) =
     (if res \<notin> haveResources then False else matchReq haveResources rest)"

fun matchCount :: "string set \<Rightarrow> string list \<Rightarrow> nat" where
  "matchCount haveResources [] = 0"
| "matchCount haveResources (res # rest) =
     (if res \<in> haveResources then matchCount haveResources rest + 1
      else matchCount haveResources rest)"

definition score :: "string set \<Rightarrow> TaskSchedule \<Rightarrow> float32" where
  "score haveResources sched =
     (if length (optionalResources sched) > 0
      then f32_div (f32_of_nat (matchCount haveResources (optionalResources sched)))
                   (f32_of_nat (length (optionalResources sched)))
      else 0)"

definition eligible :: "(TaskPtr \<Rightarrow> Task) \<Rightarrow> string set \<Rightarrow> TaskPtr \<Rightarrow> bool" where
  \<comment> \<open>the flag \<^verbatim>\<open>matchReq\<close> of a pending task\<close>
  "eligible h haveResources task = matchReq haveResources (requiredResources (m_schedule (h task)))"

definition taskScore :: "(TaskPtr \<Rightarrow> Task) \<Rightarrow> string set \<Rightarrow> TaskPtr \<Rightarrow> float32" where
  \<comment> \<open>the value of \<^verbatim>\<open>score\<close> for a pending task that has all its required resources\<close>
  "taskScore h haveResources task = score haveResources (m_schedule (h task))"

fun takeTaskToRun_loop ::
  "(TaskPtr \<Rightarrow> Task) \<Rightarrow> string set \<Rightarrow> TaskPtr list \<Rightarrow> TaskPtr option \<Rightarrow> float32 \<Rightarrow> TaskPtr option" where
  "takeTaskToRun_loop h haveResources [] readyTask bestScore = readyTask"
| "takeTaskToRun_loop h haveResources (task # rest) readyTask bestScore =
     (if matchReq haveResources (requiredResources (m_schedule (h task))) then
        (if score haveResources (m_schedule (h task)) > bestScore then
           (if score haveResources (m_schedule (h task)) \<ge> f32_0_999 then Some task
            else takeTaskToRun_loop h haveResources rest (Some task)
                   (score haveResources (m_schedule (h task))))
         else takeTaskToRun_loop h haveResources rest readyTask bestScore)
      else takeTaskToRun_loop h haveResources rest readyTask bestScore)"

definition takeTaskToRun ::
  "string set \<Rightarrow> time_t \<Rightarrow> time_t \<Rightarrow> world \<Rightarrow> TaskPtr option \<times> world" where
  \<comment> \<open>\<open>now\<close> and \<open>now'\<close> are the clock readings of \<^verbatim>\<open>markStarted\<close>\<close>
  "takeTaskToRun haveResources now now' w =
     (case takeTaskToRun_loop (heap w) haveResources (m_pendingTasks w) None f32_minus_one of
        Some readyTask \<Rightarrow>
          (Some readyTask,
           w\<lparr>m_pendingTasks := stdset_erase readyTask (m_pendingTasks w),
             heap := (heap w)(readyTask := markStarted now now' (heap w readyTask)),
             m_stats := (m_stats w)\<lparr>numPending := numPending (m_stats w) - 1,
                                    numRunning := numRunning (m_stats w) + 1\<rparr>\<rparr>)
      | None \<Rightarrow> (None, w))"

subsection \<open>Heartbeat, completion, cancellation\<close>

definition heartbeatTask :: "TaskPtr \<Rightarrow> time_t \<Rightarrow> world \<Rightarrow> world" where
  "heartbeatTask task now w = w\<lparr>heap := (heap w)(task := heartbeat now (heap w task))\<rparr>"

definition markTaskFinished :: "TaskPtr \<Rightarrow> world \<Rightarrow> world" where
  "markTaskFinished task w =
     w\<lparr>m_stats :=
         (case runStatus (m_status (heap w task)) of
            Some rs \<Rightarrow>
              if wasCanceled rs
              then (m_stats w)\<lparr>numCanceling := numCanceling (m_stats w) - 1,
                               numFinished := numFinished (m_stats w) + 1\<rparr>
              else (m_stats w)\<lparr>numRunning := numRunning (m_stats w) - 1,
                               numFinished := numFinished (m_stats w) + 1\<rparr>
          | None \<Rightarrow> (m_stats w)\<lparr>numPending := numPending (m_stats w) - 1,
                                  numFinished := numFinished (m_stats w) + 1\<rparr>),
       m_pendingTasks := stdset_erase task (m_pendingTasks w),
       m_allTasksByID := stdmap_erase (m_id (heap w task)) (m_allTasksByID w),
       finishedCalls := finishedCalls w @ [task]\<rparr>"

definition markTaskShouldCancel :: "TaskPtr \<Rightarrow> world \<Rightarrow> world" where
  "markTaskShouldCancel task w =
     (if fst (markShouldCancel (heap w task))
      then w\<lparr>heap := (heap w)(task := snd (markShouldCancel (heap w task))),
             m_stats := (m_stats w)\<lparr>numRunning := numRunning (m_stats w) - 1,
                                    numCanceling := numCanceling (m_stats w) + 1\<rparr>\<rparr>
      else markTaskFinished task w)"

subsection \<open>Zombie reaping\<close>

definition cleanupIfZombieTask :: "TaskPtr \<Rightarrow> time_t \<Rightarrow> time_t \<Rightarrow> world \<Rightarrow> bool \<times> world" where
  "cleanupIfZombieTask task heartbeatTimeoutSeconds now w =
     (let died = (case runStatus (m_status (heap w task)) of
                    Some rs \<Rightarrow> now - heartbeatTime rs \<ge> heartbeatTimeoutSeconds
                  | None \<Rightarrow> False)
      in if died then (True, markTaskFinished task w) else (False, w))"

definition isZombie :: "time_t \<Rightarrow> time_t \<Rightarrow> Task \<Rightarrow> bool" where
  \<comment> \<open>the value \<^verbatim>\<open>died\<close> of \<^verbatim>\<open>cleanupIfZombieTask\<close> for a task\<close>
  "isZombie heartbeatTimeoutSeconds now t =
     (case runStatus (m_status t) of
        Some rs \<Rightarrow> now - heartbeatTime rs \<ge> heartbeatTimeoutSeconds
      | None \<Rightarrow> False)"

text \<open>
  \<^verbatim>\<open>cleanupZombieTasks\<close> is a range-for over \<open>m_allTasksByID\<close> whose body may erase an element of
  that map. The loop visits the entries in key order; \<open>entries\<close> are the entries not yet
  visited. When the body has erased the entry the loop's iterator stands on, the iterator is
  invalid and incrementing it is undefined: the model stops there with \<open>IteratorInvalid\<close> and
  the state reached so far. Otherwise the call ends with \<open>Returned\<close>.
\<close>

datatype loop_end = Returned world | IteratorInvalid world

fun cleanupZombieTasks_loop :: "(TaskID \<times> TaskPtr) list \<Rightarrow> time_t \<Rightarrow> time_t \<Rightarrow> world \<Rightarrow> loop_end" where
  "cleanupZombieTasks_loop [] heartbeatTimeoutSeconds now w = Returned w"
| "cleanupZombieTasks_loop (item # entries) heartbeatTimeoutSeconds now w =
     (if map_of (m_allTasksByID (snd (cleanupIfZombieTask (snd item) heartbeatTimeoutSeconds now w)))
           (fst item) = None
      then IteratorInvalid (snd (cleanupIfZombieTask (snd item) heartbeatTimeoutSeconds now w))
      else cleanupZombieTasks_loop entries heartbeatTimeoutSeconds now
             (snd (cleanupIfZombieTask (snd item) heartbeatTimeoutSeconds now w)))"

definition cleanupZombieTasks :: "time_t \<Rightarrow> time_t \<Rightarrow> world \<Rightarrow> loop_end" where
  "cleanupZombieTasks heartbeatTimeoutSeconds now w =
     cleanupZombieTasks_loop (m_allTasksByID w) heartbeatTimeoutSeconds now w"

section \<open>Sequences of database operations\<close>

text \<open>
  The database starts empty. A caller holds handles it got from the database, so an
  operation on a handle is admissible when the handle is live (stored in \<open>m_allTasksByID\<close>);
  \<^verbatim>\<open>std::make_shared\<close> never returns the address of an object the database still owns; and
  \<^verbatim>\<open>createTask\<close> returns only when the samples of the random generator let its loop end.
  \<open>run\<close> executes a sequence of calls: \<open>Completed\<close> with the final state, \<open>Undefined\<close> with the
  state at which \<^verbatim>\<open>cleanupZombieTasks\<close> incremented an invalid iterator, \<open>Terminated\<close> when
  \<^verbatim>\<open>fail\<close> ended the process, \<open>Inadmissible\<close> when a call was not admissible.
\<close>

definition emptyDatabase :: "(TaskPtr \<Rightarrow> Task) \<Rightarrow> world" where
  "emptyDatabase h =
     \<lparr>heap = h, m_allTasksByID = [], m_pendingTasks = [], m_stats = TaskStats_init,
      finishedCalls = []\<rparr>"

definition live :: "world \<Rightarrow> TaskPtr \<Rightarrow> bool" where
  "live w task = (task \<in> snd ` set (m_allTasksByID w))"

datatype db_op =
    CreateTask TaskCreateInfo "TaskID list" TaskPtr time_t
  | TakeTaskToRun "string set" time_t time_t
  | HeartbeatTask TaskPtr time_t
  | MarkTaskFinished TaskPtr
  | MarkTaskShouldCancel TaskPtr
  | CleanupZombieTasks time_t time_t
  | GetTasksByStates "TaskState set"

datatype run_result = Completed world | Undefined world | Terminated | Inadmissible

fun exec :: "db_op \<Rightarrow> world \<Rightarrow> run_result" where
  "exec (CreateTask info rnd task now) w =
     (if live w task then Inadmissible
      else (case createTask info rnd task now w of
              Found r \<Rightarrow> Completed (snd r)
            | Failed \<Rightarrow> Terminated
            | OutOfSamples \<Rightarrow> Inadmissible))"
| "exec (TakeTaskToRun haveResources now now') w =
     Completed (snd (takeTaskToRun haveResources now now' w))"
| "exec (HeartbeatTask task now) w =
     (if live w task then Completed (heartbeatTask task now w) else Inadmissible)"
| "exec (MarkTaskFinished task) w =
     (if live w task then Completed (markTaskFinished task w) else Inadmissible)"
| "exec (MarkTaskShouldCancel task) w =
     (if live w task then Completed (markTaskShouldCancel task w) else Inadmissible)"
| "exec (CleanupZombieTasks heartbeatTimeoutSeconds now) w =
     (case cleanupZombieTasks heartbeatTimeoutSeconds now w of
        Returned w' \<Rightarrow> Completed w'
      | IteratorInvalid w' \<Rightarrow> Undefined w')"
| "exec (GetTasksByStates states) w = Completed w"

fun run :: "world \<Rightarrow> db_op list \<Rightarrow> run_result" where
  "run w [] = Completed w"
| "run w (c # calls) =
     (case exec c w of
        Completed w' \<Rightarrow> run w' calls
      | Undefined w' \<Rightarrow> Undefined w'
      | Terminated \<Rightarrow> Terminated
      | Inadmissible \<Rightarrow> Inadmissible)"

section \<open>Serialization\<close>

text \<open>
  Modelled from the spec: the primitives of the blob codec. \<^verbatim>\<open>Crust/BlobStream.h\<close>, with
  \<^verbatim>\<open>BlobStreamWriter\<close>, \<^verbatim>\<open>BlobStreamReader\<close> and their operators for integers, Booleans and
  strings, is not among the sources; section 4.1 of the specification gives the format:
  fixed-width integers are written little-endian in their natural width, a Boolean is one
  byte, 0 or 1, a string is a \<^verbatim>\<open>uint32\<close> length followed by that many raw bytes, and every read
  reports success or failure. A writer is the list of bytes written so far, a reader the list
  of bytes not yet read; a failed read is \<open>None\<close>. \<^verbatim>\<open>size_t\<close> and \<^verbatim>\<open>std::time_t\<close> are 64 bits wide.
\<close>

type_synonym byte = "8 word"
type_synonym BlobStreamWriter = "byte list"
type_synonym BlobStreamReader = "byte list"

fun le_bytes :: "nat \<Rightarrow> nat \<Rightarrow> byte list" where
  \<comment> \<open>Modelled from the spec: the \<open>width\<close> low bytes of a value, least significant first\<close>
  "le_bytes 0 v = []"
| "le_bytes (Suc width) v = of_nat (v mod 256) # le_bytes width (v div 256)"

fun le_value :: "byte list \<Rightarrow> nat" where
  \<comment> \<open>Modelled from the spec: the value of little-endian bytes\<close>
  "le_value [] = 0"
| "le_value (b # bs) = unat b + 256 * le_value bs"

definition write_uint :: "nat \<Rightarrow> nat \<Rightarrow> BlobStreamWriter \<Rightarrow> BlobStreamWriter" where
  \<comment> \<open>Modelled from the spec: \<^verbatim>\<open>writer << v\<close> for an unsigned integer of \<open>width\<close> bytes\<close>
  "write_uint width v writer = writer @ le_bytes width v"

definition read_uint :: "nat \<Rightarrow> BlobStreamReader \<Rightarrow> (nat \<times> BlobStreamReader) option" where
  \<comment> \<open>Modelled from the spec: \<^verbatim>\<open>reader >> v\<close> for an unsigned integer; fails on a short read\<close>
  "read_uint width reader =
     (if length reader < width then None
      else Some (le_value (take width reader), drop width reader))"

definition write_time :: "time_t \<Rightarrow> BlobStreamWriter \<Rightarrow> BlobStreamWriter" where
  \<comment> \<open>Modelled from the spec: a \<^verbatim>\<open>std::time_t\<close>, 64 bits in two's complement\<close>
  "write_time t writer = write_uint 8 (nat (t mod 2 ^ 64)) writer"

definition read_time :: "BlobStreamReader \<Rightarrow> (time_t \<times> BlobStreamReader) option" where
  \<comment> \<open>Modelled from the spec: reads a \<^verbatim>\<open>std::time_t\<close>\<close>
  "read_time reader =
     (case read_uint 8 reader of
        None \<Rightarrow> None
      | Some (v, reader') \<Rightarrow> Some (if v < 2 ^ 63 then int v else int v - 2 ^ 64, reader'))"

definition write_bool :: "bool \<Rightarrow> BlobStreamWriter \<Rightarrow> BlobStreamWriter" where
  \<comment> \<open>Modelled from the spec: a Boolean is a single byte, 0 or 1\<close>
  "write_bool b writer = writer @ [if b then 1 else 0]"

definition read_bool :: "BlobStreamReader \<Rightarrow> (bool \<times> BlobStreamReader) option" where
  \<comment> \<open>Modelled from the spec: reads a Boolean\<close>
  "read_bool reader = (case reader of [] \<Rightarrow> None | b # reader' \<Rightarrow> Some (b \<noteq> 0, reader'))"

definition write_string :: "string \<Rightarrow> BlobStreamWriter \<Rightarrow> BlobStreamWriter" where
  \<comment> \<open>Modelled from the spec: a \<^verbatim>\<open>uint32\<close> length, then the raw bytes of the string\<close>
  "write_string s writer = write_uint 4 (length s) writer @ map (\<lambda>c. of_nat (of_char c)) s"

definition read_string :: "BlobStreamReader \<Rightarrow> (string \<times> BlobStreamReader) option" where
  \<comment> \<open>Modelled from the spec: reads a string; fails on a short read\<close>
  "read_string reader =
     (case read_uint 4 reader of
        None \<Rightarrow> None
      | Some (n, reader') \<Rightarrow>
          if length reader' < n then None
          else Some (map (\<lambda>b. char_of (unat b)) (take n reader'), drop n reader'))"

text \<open>
  The composites, from \<^verbatim>\<open>TaskDatabase.cpp\<close>. \<^verbatim>\<open>deserialize\<close> fills the object it is called on
  (\<open>self\<close>) and returns \<open>false\<close> at the first failed read: the result is \<open>None\<close> then, and the
  partly filled object is not modelled. \<^verbatim>\<open>TaskSchedule\<close> writes and reads its two lists only;
  \<open>workerUsage_FixedPoint\<close> stays what it was in \<open>self\<close>.
\<close>

fun write_resources :: "string list \<Rightarrow> BlobStreamWriter \<Rightarrow> BlobStreamWriter" where
  \<comment> \<open>\<^verbatim>\<open>for (auto& resource : \<dots>) writer << resource\<close>\<close>
  "write_resources [] writer = writer"
| "write_resources (resource # rest) writer = write_resources rest (write_string resource writer)"

definition TaskSchedule_serialize :: "TaskSchedule \<Rightarrow> BlobStreamWriter \<Rightarrow> BlobStreamWriter" where
  "TaskSchedule_serialize s writer =
     write_resources (optionalResources s)
       (write_uint 8 (length (optionalResources s))
          (write_resources (requiredResources s)
             (write_uint 8 (length (requiredResources s)) writer)))"

fun read_resources :: "nat \<Rightarrow> BlobStreamReader \<Rightarrow> (string list \<times> BlobStreamReader) option" where
  \<comment> \<open>\<^verbatim>\<open>for (size_t i = 0; i < count; ++i) if (!(reader >> resources[i])) return false\<close>\<close>
  "read_resources 0 reader = Some ([], reader)"
| "read_resources (Suc count) reader =
     (case read_string reader of
        None \<Rightarrow> None
      | Some (s, reader') \<Rightarrow>
          (case read_resources count reader' of
             None \<Rightarrow> None
           | Some (ss, reader'') \<Rightarrow> Some (s # ss, reader'')))"

definition TaskSchedule_deserialize ::
  "BlobStreamReader \<Rightarrow> TaskSchedule \<Rightarrow> (TaskSchedule \<times> BlobStreamReader) option" where
  "TaskSchedule_deserialize reader self =
     (case read_uint 8 reader of
        None \<Rightarrow> None
      | Some (count, r1) \<Rightarrow>
     (case read_resources count r1 of
        None \<Rightarrow> None
      | Some (required, r2) \<Rightarrow>
     (case read_uint 8 r2 of
        None \<Rightarrow> None
      | Some (count', r3) \<Rightarrow>
     (case read_resources count' r3 of
        None \<Rightarrow> None
      | Some (optional, r4) \<Rightarrow>
          Some (self\<lparr>requiredResources := required, optionalResources := optional\<rparr>, r4)))))"

definition TaskCreateInfo_serialize :: "TaskCreateInfo \<Rightarrow> BlobStreamWriter \<Rightarrow> BlobStreamWriter" where
  "TaskCreateInfo_serialize info writer =
     TaskSchedule_serialize (schedule info) (write_string (command info) writer)"

definition TaskCreateInfo_deserialize ::
  "BlobStreamReader \<Rightarrow> TaskCreateInfo \<Rightarrow> (TaskCreateInfo \<times> BlobStreamReader) option" where
  "TaskCreateInfo_deserialize reader self =
     (case read_string reader of
        None \<Rightarrow> None
      | Some (cmd, r1) \<Rightarrow>
     (case TaskSchedule_deserialize r1 (schedule self) of
        None \<Rightarrow> None
      | Some (sched, r2) \<Rightarrow> Some (self\<lparr>command := cmd, schedule := sched\<rparr>, r2)))"

definition TaskRunStatus_serialize :: "TaskRunStatus \<Rightarrow> BlobStreamWriter \<Rightarrow> BlobStreamWriter" where
  "TaskRunStatus_serialize rs writer =
     write_time (heartbeatTime rs) (write_time (startTime rs) (write_bool (wasCanceled rs) writer))"

definition TaskRunStatus_deserialize ::
  "BlobStreamReader \<Rightarrow> TaskRunStatus \<Rightarrow> (TaskRunStatus \<times> BlobStreamReader) option" where
  "TaskRunStatus_deserialize reader self =
     (case read_bool reader of
        None \<Rightarrow> None
      | Some (c, r1) \<Rightarrow>
     (case read_time r1 of
        None \<Rightarrow> None
      | Some (st, r2) \<Rightarrow>
     (case read_time r2 of
        None \<Rightarrow> None
      | Some (hb, r3) \<Rightarrow>
          Some (self\<lparr>wasCanceled := c, startTime := st, heartbeatTime := hb\<rparr>, r3))))"

definition TaskStatus_serialize :: "TaskStatus \<Rightarrow> BlobStreamWriter \<Rightarrow> BlobStreamWriter" where
  "TaskStatus_serialize st writer =
     (case runStatus st of
        Some rs \<Rightarrow> TaskRunStatus_serialize rs (write_bool True (write_time (createTime st) writer))
      | None \<Rightarrow> write_bool False (write_time (createTime st) writer))"

definition TaskStatus_deserialize ::
  "BlobStreamReader \<Rightarrow> TaskRunStatus \<Rightarrow> TaskStatus \<Rightarrow> (TaskStatus \<times> BlobStreamReader) option" where
  \<comment> \<open>\<open>runStatusVal\<close> is the local \<^verbatim>\<open>TaskRunStatus runStatusVal\<close>, uninitialised before it is read\<close>
  "TaskStatus_deserialize reader runStatusVal self =
     (case read_time reader of
        None \<Rightarrow> None
      | Some (ct, r1) \<Rightarrow>
     (case read_bool r1 of
        None \<Rightarrow> None
      | Some (hasRunStatus, r2) \<Rightarrow>
          if hasRunStatus then
            (case TaskRunStatus_deserialize r2 runStatusVal of
               None \<Rightarrow> None
             | Some (rs, r3) \<Rightarrow> Some (self\<lparr>createTime := ct, runStatus := Some rs\<rparr>, r3))
          else Some (self\<lparr>createTime := ct, runStatus := None\<rparr>, r2)))"

text \<open>
  The values the wire format can carry: a string shorter than \<open>2^32\<close> bytes (its length is a
  \<^verbatim>\<open>uint32\<close>), a list shorter than \<open>2^64\<close> (a \<^verbatim>\<open>size_t\<close>), a time in the range of a 64-bit
  \<^verbatim>\<open>std::time_t\<close>.
\<close>

definition string_fits :: "string \<Rightarrow> bool" where
  "string_fits s = (length s < 2 ^ 32)"

definition resources_fit :: "string list \<Rightarrow> bool" where
  "resources_fit rs = (length rs < 2 ^ 64 \<and> list_all string_fits rs)"

definition time_fits :: "time_t \<Rightarrow> bool" where
  "time_fits t = (- (2 ^ 63) \<le> t \<and> t < 2 ^ 63)"

definition status_fits :: "TaskStatus \<Rightarrow> bool" where
  "status_fits st =
     (time_fits (createTime st) \<and>
      (case runStatus st of
         Some rs \<Rightarrow> time_fits (startTime rs) \<and> time_fits (heartbeatTime rs)
       | None \<Rightarrow> True))"

section \<open>Well-formed databases\<close>

text \<open>
  The representation invariant of the database: keys are unique, every entry is filed under
  the ID of the task it points to, and the pending set holds exactly the live tasks that have
  no \<open>runStatus\<close>.
\<close>

definition db_inv :: "world \<Rightarrow> bool" where
  "db_inv w \<longleftrightarrow>
     distinct (map fst (m_allTasksByID w)) \<and>
     (\<forall>e \<in> set (m_allTasksByID w). m_id (heap w (snd e)) = fst e) \<and>
     distinct (m_pendingTasks w) \<and>
     set (m_pendingTasks w) = {task. live w task \<and> runStatus (m_status (heap w task)) = None}"

text \<open>
  The counter equations, in the arithmetic of the counters: modulo \<open>2^32\<close> for the \<^verbatim>\<open>int\<close>
  counters, modulo \<open>2^64\<close> for \<^verbatim>\<open>numFinished\<close>.
\<close>

definition counters_ok :: "world \<Rightarrow> bool" where
  "counters_ok w \<longleftrightarrow>
     numPending (m_stats w) = of_nat (card (set (m_pendingTasks w))) \<and>
     numRunning (m_stats w) + numCanceling (m_stats w) =
       of_nat (card {task. live w task \<and> runStatus (m_status (heap w task)) \<noteq> None}) \<and>
     numFinished (m_stats w) = of_nat (length (finishedCalls w))"

section \<open>Sample inputs\<close>

definition blankTask :: Task where
  "blankTask =
     \<lparr>m_id = 0, m_command = [], m_schedule = \<lparr>requiredResources = [], optionalResources = [],
        workerUsage_FixedPoint = 0\<rparr>,
      m_status = \<lparr>createTime = 0, runStatus = None\<rparr>\<rparr>"

definition blankHeap :: "TaskPtr \<Rightarrow> Task" where
  "blankHeap = (\<lambda>_. blankTask)"

definition echoInfo :: TaskCreateInfo where
  \<comment> \<open>\<^verbatim>\<open>new "echo hi" -require CPU\<close>\<close>
  "echoInfo = \<lparr>command = ''echo hi'',
      schedule = \<lparr>requiredResources = [''CPU''], optionalResources = [], workerUsage_FixedPoint = 0\<rparr>\<rparr>"

definition cancelTwice :: "db_op list" where
  \<comment> \<open>a task is created, dispatched and cancelled twice; a second task is cancelled while pending\<close>
  "cancelTwice =
     [CreateTask echoInfo [5] 1 0, TakeTaskToRun {''CPU''} 1 1, MarkTaskShouldCancel 1,
      MarkTaskShouldCancel 1, CreateTask echoInfo [5, 9] 2 3, MarkTaskShouldCancel 2]"

definition cancelTwice_final :: world where
  "cancelTwice_final =
     \<lparr>heap = blankHeap
        (1 := \<lparr>m_id = 5, m_command = ''echo hi'', m_schedule = schedule echoInfo,
               m_status = \<lparr>createTime = 0, runStatus =
                 Some \<lparr>wasCanceled = True, startTime = 1, heartbeatTime = 1\<rparr>\<rparr>\<rparr>,
         2 := \<lparr>m_id = 9, m_command = ''echo hi'', m_schedule = schedule echoInfo,
               m_status = \<lparr>createTime = 3, runStatus = None\<rparr>\<rparr>),
      m_allTasksByID = [(5, 1)], m_pendingTasks = [],
      m_stats = \<lparr>numPending = 0, numRunning = - 1, numCanceling = 2, numFinished = 1\<rparr>,
      finishedCalls = [2]\<rparr>"

definition dispatchOne :: "db_op list" where
  \<comment> \<open>a task is created and dispatched at time 1; a second task is created and stays pending\<close>
  "dispatchOne =
     [CreateTask echoInfo [5] 1 0, TakeTaskToRun {''CPU''} 1 1, CreateTask echoInfo [9] 2 3]"

definition dispatchOne_final :: world where
  "dispatchOne_final =
     \<lparr>heap = blankHeap
        (1 := \<lparr>m_id = 5, m_command = ''echo hi'', m_schedule = schedule echoInfo,
               m_status = \<lparr>createTime = 0, runStatus =
                 Some \<lparr>wasCanceled = False, startTime = 1, heartbeatTime = 1\<rparr>\<rparr>\<rparr>,
         2 := \<lparr>m_id = 9, m_command = ''echo hi'', m_schedule = schedule echoInfo,
               m_status = \<lparr>createTime = 3, runStatus = None\<rparr>\<rparr>),
      m_allTasksByID = [(5, 1), (9, 2)], m_pendingTasks = [2],
      m_stats = \<lparr>numPending = 1, numRunning = 1, numCanceling = 0, numFinished = 0\<rparr>,
      finishedCalls = []\<rparr>"

definition finishedOne :: world where
  \<comment> \<open>the dispatched task has finished; handle 1 still points to its object\<close>
  "finishedOne = markTaskFinished 1 dispatchOne_final"

definition finishedTwice :: world where
  \<comment> \<open>\<^verbatim>\<open>markTaskFinished\<close> is called again on the task that has finished\<close>
  "finishedTwice = markTaskFinished 1 finishedOne"

definition cancelCalls :: "nat \<Rightarrow> db_op list" where
  \<comment> \<open>the dispatched task of \<open>dispatchOne\<close> is cancelled \<open>n\<close> times\<close>
  "cancelCalls n = replicate n (MarkTaskShouldCancel 1)"

definition cancelTimes :: "nat \<Rightarrow> world" where
  \<comment> \<open>\<open>dispatchOne_final\<close> after \<open>n\<close> cancellations of its dispatched task, \<open>n\<close> positive\<close>
  "cancelTimes n =
     \<lparr>heap = blankHeap
        (1 := \<lparr>m_id = 5, m_command = ''echo hi'', m_schedule = schedule echoInfo,
               m_status = \<lparr>createTime = 0, runStatus =
                 Some \<lparr>wasCanceled = True, startTime = 1, heartbeatTime = 1\<rparr>\<rparr>\<rparr>,
         2 := \<lparr>m_id = 9, m_command = ''echo hi'', m_schedule = schedule echoInfo,
               m_status = \<lparr>createTime = 3, runStatus = None\<rparr>\<rparr>),
      m_allTasksByID = [(5, 1), (9, 2)], m_pendingTasks = [2],
      m_stats = \<lparr>numPending = 1, numRunning = 1 - of_nat n, numCanceling = of_nat n,
                 numFinished = 0\<rparr>,
      finishedCalls = []\<rparr>"

definition moreCalls :: "db_op list" where
  \<comment> \<open>calls that follow \<open>cancelTwice\<close>\<close>
  "moreCalls =
     [HeartbeatTask 1 20, TakeTaskToRun {''CPU''} 21 21, MarkTaskShouldCancel 1,
      CreateTask echoInfo [5, 7] 3 22, GetTasksByStates {Running}, TakeTaskToRun {''CPU''} 23 24]"

definition crowd :: "nat \<Rightarrow> world" where
  \<comment> \<open>a database of \<open>n\<close> pending tasks with the IDs and addresses \<open>0, \<dots>, n - 1\<close>\<close>
  "crowd n =
     \<lparr>heap = (\<lambda>p. \<lparr>m_id = of_nat p, m_command = ''echo hi'', m_schedule = schedule echoInfo,
                     m_status = \<lparr>createTime = 0, runStatus = None\<rparr>\<rparr>),
      m_allTasksByID = map (\<lambda>p. (of_nat p, p)) [0..<n], m_pendingTasks = [0..<n],
      m_stats = \<lparr>numPending = of_nat n, numRunning = 0, numCanceling = 0, numFinished = 0\<rparr>,
      finishedCalls = []\<rparr>"

definition crowdCalls :: "nat \<Rightarrow> db_op list" where
  \<comment> \<open>the calls of \<^verbatim>\<open>createTask\<close> that build \<open>crowd n\<close>\<close>
  "crowdCalls n = map (\<lambda>p. CreateTask echoInfo [of_nat p] p 0) [0..<n]"

definition wantInfo :: "string list \<Rightarrow> TaskCreateInfo" where
  \<comment> \<open>\<^verbatim>\<open>new "echo hi" -want \<dots>\<close>\<close>
  "wantInfo tags = \<lparr>command = ''echo hi'',
      schedule = \<lparr>requiredResources = [], optionalResources = tags, workerUsage_FixedPoint = 0\<rparr>\<rparr>"

definition pendingPair :: "string list \<Rightarrow> string list \<Rightarrow> world" where
  \<comment> \<open>two pending tasks, at the addresses 1 and 2, that want the given tags\<close>
  "pendingPair tagsA tagsB =
     \<lparr>heap = blankHeap
        (1 := \<lparr>m_id = 5, m_command = ''echo hi'', m_schedule = schedule (wantInfo tagsA),
               m_status = \<lparr>createTime = 0, runStatus = None\<rparr>\<rparr>,
         2 := \<lparr>m_id = 9, m_command = ''echo hi'', m_schedule = schedule (wantInfo tagsB),
               m_status = \<lparr>createTime = 0, runStatus = None\<rparr>\<rparr>),
      m_allTasksByID = [(5, 1), (9, 2)], m_pendingTasks = [1, 2],
      m_stats = \<lparr>numPending = 2, numRunning = 0, numCanceling = 0, numFinished = 0\<rparr>,
      finishedCalls = []\<rparr>"

definition pendingPairCalls :: "string list \<Rightarrow> string list \<Rightarrow> db_op list" where
  "pendingPairCalls tagsA tagsB =
     [CreateTask (wantInfo tagsA) [5] 1 0, CreateTask (wantInfo tagsB) [9] 2 0]"

definition nearlyAll :: "string list" where
  \<comment> \<open>1024 optional tags, 1023 of them \<open>X\<close>\<close>
  "nearlyAll = replicate 1023 ''X'' @ [''Y'']"

definition canceledStatus :: TaskStatus where
  \<comment> \<open>created one second before the epoch, dispatched at 1, last heard of at 7, cancelled\<close>
  "canceledStatus =
     \<lparr>createTime = - 1,
      runStatus = Some \<lparr>wasCanceled = True, startTime = 1, heartbeatTime = 7\<rparr>\<rparr>"

definition blankSchedule :: TaskSchedule where
  "blankSchedule = \<lparr>requiredResources = [], optionalResources = [], workerUsage_FixedPoint = 0\<rparr>"

definition reapAgain :: "db_op list" where
  \<comment> \<open>the reaper runs three times, with timeouts down to zero, long after the tasks were made\<close>
  "reapAgain =
     [CleanupZombieTasks 60 30, CleanupZombieTasks 1000000 1000, CleanupZombieTasks 0 1000000]"

section \<open>Calls that remove no dispatched task\<close>

fun removes :: "db_op \<Rightarrow> bool" where
  "removes (MarkTaskFinished task) = True"
| "removes (CleanupZombieTasks heartbeatTimeoutSeconds now) = True"
| "removes c = False"

fun isCleanup :: "db_op \<Rightarrow> bool" where
  "isCleanup (CleanupZombieTasks heartbeatTimeoutSeconds now) = True"
| "isCleanup c = False"

section \<open>Properties\<close>

subsection \<open>Containers and invariant preservation\<close>

lemma stdmap_erase_filter: "stdmap_erase k m = filter (\<lambda>e. fst e \<noteq> k) m"
  by (induction m) auto

lemma stdset_erase_filter: "stdset_erase p s = filter (\<lambda>q. q \<noteq> p) s"
  by (induction s) auto

lemma set_stdset_insert [simp]: "set (stdset_insert p s) = insert p (set s)"
  by (auto simp: stdset_insert_def set_insort_key)

lemma distinct_stdset_insert: "distinct s \<Longrightarrow> distinct (stdset_insert p s)"
  by (auto simp: stdset_insert_def distinct_insort)

lemma set_stdmap_assign: "k \<notin> fst ` set m \<Longrightarrow> set (stdmap_assign k v m) = insert (k, v) (set m)"
  by (simp add: stdmap_assign_def map_of_eq_None_iff set_insort_key)

lemma keys_stdmap_assign: "k \<notin> fst ` set m \<Longrightarrow> distinct (map fst m) \<Longrightarrow> distinct (map fst (stdmap_assign k v m))"
  by (force simp: stdmap_assign_def map_of_eq_None_iff distinct_map distinct_insort set_insort_key)

lemma finite_live [simp]: "finite {task. live w task \<and> P task}"
  by (rule finite_subset [of _ "snd ` set (m_allTasksByID w)"]) (auto simp: live_def)

lemma getUnusedTaskID_loop_Found:
  "getUnusedTaskID_loop w r c n rnd = (Found ident, n') \<Longrightarrow> getTaskByID ident w = None"
  by (induction w r c n rnd rule: getUnusedTaskID_loop.induct)
     (subst (asm) getUnusedTaskID_loop.simps, auto split: if_splits list.splits)

lemma getUnusedTaskID_Found:
  "fst (getUnusedTaskID rnd w) = Found ident \<Longrightarrow> getTaskByID ident w = None"
  by (cases "getUnusedTaskID rnd w")
     (auto simp: getUnusedTaskID_def split: list.splits dest: getUnusedTaskID_loop_Found)

lemma getUnusedTaskID_loop_not_Failed:
  "fst (getUnusedTaskID_loop w r c n rnd) \<noteq> Failed"
  by (induction w r c n rnd rule: getUnusedTaskID_loop.induct)
     (subst getUnusedTaskID_loop.simps, auto split: if_splits list.splits)

lemma map_of_None_keys: "map_of m k = None \<longleftrightarrow> k \<notin> fst ` set m"
  by (simp add: map_of_eq_None_iff)

lemma createTask_inv:
  assumes "db_inv w" "counters_ok w" "\<not> live w task" "createTask info rnd task now w = Found (q, w')"
  shows "db_inv w' \<and> counters_ok w'"
proof -
  from assms(4) obtain ident where f: "fst (getUnusedTaskID rnd w) = Found ident"
    and w': "w' = w\<lparr>heap := (heap w)(task := Task_new ident info now),
              m_allTasksByID := stdmap_assign ident task (m_allTasksByID w),
              m_pendingTasks := stdset_insert task (m_pendingTasks w),
              m_stats := (m_stats w)\<lparr>numPending := numPending (m_stats w) + 1\<rparr>\<rparr>"
    by (auto simp: createTask_def split: sampled.splits)
  from f have fresh: "ident \<notin> fst ` set (m_allTasksByID w)"
    using getUnusedTaskID_Found [OF f] by (simp add: getTaskByID_def map_of_None_keys)
  have s: "set (m_allTasksByID w') = insert (ident, task) (set (m_allTasksByID w))"
    by (simp add: w' set_stdmap_assign [OF fresh])
  have l: "live w' t \<longleftrightarrow> t = task \<or> live w t" for t
    by (auto simp: live_def s)
  have h: "t \<noteq> task \<Longrightarrow> heap w' t = heap w t" for t by (simp add: w')
  have hn: "runStatus (m_status (heap w' task)) = None" by (simp add: w' Task_new_def)
  have np: "task \<notin> set (m_pendingTasks w)" using assms(1,3) by (auto simp: db_inv_def)
  have A: "{t. live w' t \<and> runStatus (m_status (heap w' t)) = None}
         = insert task {t. live w t \<and> runStatus (m_status (heap w t)) = None}"
    using assms(3) hn by (auto simp: l) (metis h)+
  have B: "{t. live w' t \<and> runStatus (m_status (heap w' t)) \<noteq> None}
         = {t. live w t \<and> runStatus (m_status (heap w t)) \<noteq> None}"
    using assms(3) hn by (auto simp: l) (metis h)+
  have i1: "distinct (map fst (m_allTasksByID w'))"
    using assms(1) fresh by (simp add: w' keys_stdmap_assign db_inv_def)
  have i2: "\<forall>e \<in> set (m_allTasksByID w'). m_id (heap w' (snd e)) = fst e"
    unfolding s using assms(1,3) by (auto simp: db_inv_def live_def w' Task_new_def)
  have i3: "distinct (m_pendingTasks w')"
    using assms(1) by (simp add: w' distinct_stdset_insert db_inv_def)
  have i4: "set (m_pendingTasks w') = {t. live w' t \<and> runStatus (m_status (heap w' t)) = None}"
    unfolding A using assms(1) by (simp add: w' db_inv_def)
  have "db_inv w'"
    unfolding db_inv_def using i1 i2 i3 i4 by blast
  moreover have "counters_ok w'"
    unfolding counters_ok_def B
    using assms(2) np unfolding counters_ok_def
    by (simp add: w')
  ultimately show ?thesis ..
qed

lemma live_iff: "live w t \<longleftrightarrow> (\<exists>k. (k, t) \<in> set (m_allTasksByID w))"
  by (force simp: live_def)

lemma db_inv_key: "db_inv w \<Longrightarrow> (k, t) \<in> set (m_allTasksByID w) \<Longrightarrow> m_id (heap w t) = k"
  by (force simp: db_inv_def)

lemma db_inv_entry: "db_inv w \<Longrightarrow> live w t \<Longrightarrow> (m_id (heap w t), t) \<in> set (m_allTasksByID w)"
  by (auto simp: live_iff dest: db_inv_key)

lemma db_inv_unique:
  "db_inv w \<Longrightarrow> (k, t) \<in> set (m_allTasksByID w) \<Longrightarrow> (k, u) \<in> set (m_allTasksByID w) \<Longrightarrow> t = u"
  by (auto simp: db_inv_def dest: eq_key_imp_eq_value)

lemma live_erase:
  assumes "db_inv w" "live w p"
  shows "(t \<in> snd ` set (stdmap_erase (m_id (heap w p)) (m_allTasksByID w))) \<longleftrightarrow> live w t \<and> t \<noteq> p"
proof
  assume "t \<in> snd ` set (stdmap_erase (m_id (heap w p)) (m_allTasksByID w))"
  then obtain k where k: "(k, t) \<in> set (m_allTasksByID w)" "k \<noteq> m_id (heap w p)"
    by (auto simp: stdmap_erase_filter)
  with db_inv_key [OF assms(1) k(1)] show "live w t \<and> t \<noteq> p"
    by (auto simp: live_iff)
next
  assume a: "live w t \<and> t \<noteq> p"
  then obtain k where k: "(k, t) \<in> set (m_allTasksByID w)" by (auto simp: live_iff)
  have "k \<noteq> m_id (heap w p)"
    using db_inv_unique [OF assms(1) _ db_inv_entry [OF assms]] k a by blast
  with k show "t \<in> snd ` set (stdmap_erase (m_id (heap w p)) (m_allTasksByID w))"
    by (force simp: stdmap_erase_filter)
qed

lemma markTaskFinished_live:
  "db_inv w \<Longrightarrow> live w p \<Longrightarrow> live (markTaskFinished p w) t \<longleftrightarrow> live w t \<and> t \<noteq> p"
  using live_erase [of w p t] by (simp add: live_def markTaskFinished_def)

lemma markTaskFinished_heap [simp]: "heap (markTaskFinished p w) = heap w"
  by (simp add: markTaskFinished_def)

lemma markTaskFinished_pending [simp]:
  "m_pendingTasks (markTaskFinished p w) = stdset_erase p (m_pendingTasks w)"
  by (simp add: markTaskFinished_def)

lemma markTaskFinished_calls [simp]:
  "finishedCalls (markTaskFinished p w) = finishedCalls w @ [p]"
  by (simp add: markTaskFinished_def)

lemma markTaskFinished_db_inv:
  assumes "db_inv w" "live w p"
  shows "db_inv (markTaskFinished p w)"
proof -
  let ?w = "markTaskFinished p w"
  have m: "m_allTasksByID ?w = filter (\<lambda>e. fst e \<noteq> m_id (heap w p)) (m_allTasksByID w)"
    by (simp add: markTaskFinished_def stdmap_erase_filter)
  have i1: "distinct (map fst (m_allTasksByID ?w))"
    using assms(1) unfolding m by (simp add: db_inv_def distinct_map_filter)
  have i2: "\<forall>e \<in> set (m_allTasksByID ?w). m_id (heap ?w (snd e)) = fst e"
    using assms(1) unfolding m by (simp add: db_inv_def)
  have i3: "distinct (m_pendingTasks ?w)"
    using assms(1) by (simp add: db_inv_def stdset_erase_filter)
  have i4: "set (m_pendingTasks ?w) = {t. live ?w t \<and> runStatus (m_status (heap ?w t)) = None}"
    using assms(1) by (auto simp: markTaskFinished_live [OF assms] db_inv_def stdset_erase_filter)
  show ?thesis unfolding db_inv_def using i1 i2 i3 i4 by blast
qed

lemma card_Diff1_word:
  "finite S \<Longrightarrow> p \<in> S \<Longrightarrow> (of_nat (card (S - {p})) :: 'a::len word) = of_nat (card S) - 1"
proof -
  assume "finite S" "p \<in> S"
  then have "card S = Suc (card (S - {p}))" by (rule card_Suc_Diff1 [symmetric])
  then show ?thesis by simp
qed

lemma markTaskFinished_counters:
  assumes "db_inv w" "counters_ok w" "live w p"
  shows "counters_ok (markTaskFinished p w)"
proof -
  let ?w = "markTaskFinished p w"
  let ?P = "{t. live w t \<and> runStatus (m_status (heap w t)) = None}"
  let ?R = "{t. live w t \<and> runStatus (m_status (heap w t)) \<noteq> None}"
  have pend: "set (m_pendingTasks w) = ?P" using assms(1) by (simp add: db_inv_def)
  have P': "set (m_pendingTasks ?w) = ?P - {p}"
    by (auto simp: stdset_erase_filter pend)
  have R': "{t. live ?w t \<and> runStatus (m_status (heap ?w t)) \<noteq> None} = ?R - {p}"
    by (auto simp: markTaskFinished_live [OF assms(1,3)])
  have fin: "numFinished (m_stats ?w) = numFinished (m_stats w) + 1"
    by (simp add: markTaskFinished_def split: option.splits)
  show ?thesis
  proof (cases "runStatus (m_status (heap w p))")
    case None
    then have pP: "p \<in> ?P" and pR: "p \<notin> ?R" using assms(3) by auto
    have "(of_nat (card (?P - {p})) :: int32) = of_nat (card ?P) - 1"
      by (rule card_Diff1_word [OF finite_live pP])
    moreover have "?R - {p} = ?R" using pR by blast
    moreover have "numPending (m_stats ?w) = numPending (m_stats w) - 1"
      "numRunning (m_stats ?w) = numRunning (m_stats w)"
      "numCanceling (m_stats ?w) = numCanceling (m_stats w)"
      using None by (simp_all add: markTaskFinished_def)
    ultimately show ?thesis
      using assms(2) fin unfolding counters_ok_def P' R' pend by simp
  next
    case (Some rs)
    then have pP: "p \<notin> ?P" and pR: "p \<in> ?R" using assms(3) by auto
    have "(of_nat (card (?R - {p})) :: int32) = of_nat (card ?R) - 1"
      by (rule card_Diff1_word [OF finite_live pR])
    moreover have "?P - {p} = ?P" using pP by blast
    moreover have "numPending (m_stats ?w) = numPending (m_stats w)"
      "numRunning (m_stats ?w) + numCanceling (m_stats ?w)
         = numRunning (m_stats w) + numCanceling (m_stats w) - 1"
      using Some by (simp_all add: markTaskFinished_def)
    ultimately show ?thesis
      using assms(2) fin unfolding counters_ok_def P' R' pend by simp
  qed
qed

lemma matchReq_iff: "matchReq R rs \<longleftrightarrow> set rs \<subseteq> R"
  by (induction rs) auto

lemma matchCount_filter: "matchCount R rs = length (filter (\<lambda>res. res \<in> R) rs)"
  by (induction rs) auto

lemma f32_round_nonneg: "0 \<le> f32_round n d"
  by (simp add: f32_round_def Let_def)

lemma score_nonneg: "0 \<le> score R sched"
  by (simp add: score_def f32_div_def f32_round_nonneg)

lemma bit_length_0 [simp]: "bit_length 0 = 0"
  by (subst bit_length.simps) simp

lemma bit_length_1 [simp]: "bit_length (Suc 0) = Suc 0"
  by (subst bit_length.simps) simp

lemma bit_length_numeral [simp]:
  "bit_length Numeral1 = 1"
  "bit_length (numeral (Num.Bit0 k)) = Suc (bit_length (numeral k))"
  "bit_length (numeral (Num.Bit1 k)) = Suc (bit_length (numeral k))"
  by (subst bit_length.simps, simp)+

lemma f32_0_999_value: "f32_0_999 = 16760439 * 2 ^ 125"
  unfolding f32_0_999_def f32_round_def by (simp add: Let_def)

lemma f32_threshold_pos: "f32_minus_one < f32_0_999"
  by (simp add: f32_0_999_value f32_minus_one_def)

lemma loop_Cons:
  "takeTaskToRun_loop h R (x # xs) acc best =
     (if eligible h R x \<and> best < taskScore h R x then
        (if f32_0_999 \<le> taskScore h R x then Some x else takeTaskToRun_loop h R xs (Some x) (taskScore h R x))
      else takeTaskToRun_loop h R xs acc best)"
  by (simp add: eligible_def taskScore_def)

declare takeTaskToRun_loop.simps(2) [simp del]

lemma loop_char:
  "best < f32_0_999 \<Longrightarrow>
   (takeTaskToRun_loop h R xs acc best = acc \<and> (\<forall>u \<in> set xs. eligible h R u \<longrightarrow> taskScore h R u \<le> best)) \<or>
   (\<exists>pre t post. xs = pre @ t # post \<and> takeTaskToRun_loop h R xs acc best = Some t \<and>
      eligible h R t \<and> best < taskScore h R t \<and>
      (\<forall>u \<in> set pre. eligible h R u \<longrightarrow> taskScore h R u < taskScore h R t \<and> taskScore h R u < f32_0_999) \<and>
      (f32_0_999 \<le> taskScore h R t \<or> (\<forall>u \<in> set post. eligible h R u \<longrightarrow> taskScore h R u \<le> taskScore h R t)))"
proof (induction xs arbitrary: acc best)
  case Nil
  then show ?case by simp
next
  case (Cons x xs)
  show ?case
  proof (cases "eligible h R x \<and> best < taskScore h R x")
    case False
    then have eq: "takeTaskToRun_loop h R (x # xs) acc best = takeTaskToRun_loop h R xs acc best"
      by (auto simp: loop_Cons)
    from Cons.IH [OF Cons.prems, of acc] show ?thesis
    proof
      assume "takeTaskToRun_loop h R xs acc best = acc \<and> (\<forall>u \<in> set xs. eligible h R u \<longrightarrow> taskScore h R u \<le> best)"
      with False eq show ?thesis by auto
    next
      assume "\<exists>pre t post. xs = pre @ t # post \<and> takeTaskToRun_loop h R xs acc best = Some t \<and>
        eligible h R t \<and> best < taskScore h R t \<and>
        (\<forall>u \<in> set pre. eligible h R u \<longrightarrow> taskScore h R u < taskScore h R t \<and> taskScore h R u < f32_0_999) \<and>
        (f32_0_999 \<le> taskScore h R t \<or> (\<forall>u \<in> set post. eligible h R u \<longrightarrow> taskScore h R u \<le> taskScore h R t))"
      then obtain pre t post where p: "xs = pre @ t # post" "takeTaskToRun_loop h R xs acc best = Some t"
        "eligible h R t" "best < taskScore h R t"
        "\<forall>u \<in> set pre. eligible h R u \<longrightarrow> taskScore h R u < taskScore h R t \<and> taskScore h R u < f32_0_999"
        "f32_0_999 \<le> taskScore h R t \<or> (\<forall>u \<in> set post. eligible h R u \<longrightarrow> taskScore h R u \<le> taskScore h R t)"
        by blast
      have "x # xs = (x # pre) @ t # post" using p(1) by simp
      moreover have "\<forall>u \<in> set (x # pre). eligible h R u \<longrightarrow> taskScore h R u < taskScore h R t \<and> taskScore h R u < f32_0_999"
        using p(4,5) False Cons.prems by auto
      ultimately show ?thesis using p(2,3,4,6) eq by metis
    qed
  next
    case True
    show ?thesis
    proof (cases "f32_0_999 \<le> taskScore h R x")
      case stop: True
      have "x # xs = [] @ x # xs" by simp
      moreover have "takeTaskToRun_loop h R (x # xs) acc best = Some x"
        using True stop by (auto simp: loop_Cons)
      ultimately show ?thesis using True stop
        by (intro disjI2 exI [of _ "[]"] exI [of _ x] exI [of _ xs]) simp
    next
      case go: False
      then have lt: "taskScore h R x < f32_0_999" by simp
      have eq: "takeTaskToRun_loop h R (x # xs) acc best = takeTaskToRun_loop h R xs (Some x) (taskScore h R x)"
        using True go by (auto simp: loop_Cons)
      from Cons.IH [OF lt, of "Some x"] show ?thesis
      proof
        assume a: "takeTaskToRun_loop h R xs (Some x) (taskScore h R x) = Some x \<and>
          (\<forall>u \<in> set xs. eligible h R u \<longrightarrow> taskScore h R u \<le> taskScore h R x)"
        show ?thesis using True a eq
          by (intro disjI2 exI [of _ "[]"] exI [of _ x] exI [of _ xs]) simp
      next
        assume "\<exists>pre t post. xs = pre @ t # post \<and> takeTaskToRun_loop h R xs (Some x) (taskScore h R x) = Some t \<and>
          eligible h R t \<and> taskScore h R x < taskScore h R t \<and>
          (\<forall>u \<in> set pre. eligible h R u \<longrightarrow> taskScore h R u < taskScore h R t \<and> taskScore h R u < f32_0_999) \<and>
          (f32_0_999 \<le> taskScore h R t \<or> (\<forall>u \<in> set post. eligible h R u \<longrightarrow> taskScore h R u \<le> taskScore h R t))"
        then obtain pre t post where p: "xs = pre @ t # post"
          "takeTaskToRun_loop h R xs (Some x) (taskScore h R x) = Some t"
          "eligible h R t" "taskScore h R x < taskScore h R t"
          "\<forall>u \<in> set pre. eligible h R u \<longrightarrow> taskScore h R u < taskScore h R t \<and> taskScore h R u < f32_0_999"
          "f32_0_999 \<le> taskScore h R t \<or> (\<forall>u \<in> set post. eligible h R u \<longrightarrow> taskScore h R u \<le> taskScore h R t)"
          by blast
        have "x # xs = (x # pre) @ t # post" using p(1) by simp
        moreover have "\<forall>u \<in> set (x # pre). eligible h R u \<longrightarrow> taskScore h R u < taskScore h R t \<and> taskScore h R u < f32_0_999"
          using p(4,5) lt by auto
        moreover have "best < taskScore h R t" using True p(4) by simp
        ultimately show ?thesis using p(2,3,6) eq by metis
      qed
    qed
  qed
qed

lemma taskScore_nonneg: "0 \<le> taskScore h R t"
  by (simp add: taskScore_def score_nonneg)

lemma taskScore_gt_minus_one: "f32_minus_one < taskScore h R t"
  using taskScore_nonneg [of h R t] by (simp add: f32_minus_one_def)

lemma take_loop_None_iff:
  "takeTaskToRun_loop h R xs None f32_minus_one = None \<longleftrightarrow> (\<forall>u \<in> set xs. \<not> eligible h R u)"
proof
  assume n: "takeTaskToRun_loop h R xs None f32_minus_one = None"
  from loop_char [OF f32_threshold_pos, of h R xs None] n
  have "\<forall>u \<in> set xs. eligible h R u \<longrightarrow> taskScore h R u \<le> f32_minus_one" by auto
  then show "\<forall>u \<in> set xs. \<not> eligible h R u"
    using taskScore_gt_minus_one [of h R] by (meson not_less)
next
  assume a: "\<forall>u \<in> set xs. \<not> eligible h R u"
  from loop_char [OF f32_threshold_pos, of h R xs None] a
  show "takeTaskToRun_loop h R xs None f32_minus_one = None" by auto
qed

lemma take_loop_Some:
  assumes "takeTaskToRun_loop h R xs None f32_minus_one = Some t"
  shows "\<exists>pre post. xs = pre @ t # post \<and> eligible h R t \<and>
      (\<forall>u \<in> set pre. eligible h R u \<longrightarrow> taskScore h R u < taskScore h R t \<and> taskScore h R u < f32_0_999) \<and>
      (f32_0_999 \<le> taskScore h R t \<or> (\<forall>u \<in> set post. eligible h R u \<longrightarrow> taskScore h R u \<le> taskScore h R t))"
  using loop_char [OF f32_threshold_pos, of h R xs None] assms by auto

lemma take_loop_mem:
  "takeTaskToRun_loop h R xs None f32_minus_one = Some t \<Longrightarrow> t \<in> set xs"
  by (drule take_loop_Some) auto

lemma takeTaskToRun_None:
  "fst (takeTaskToRun R now now2 w) = None \<Longrightarrow> takeTaskToRun R now now2 w = (None, w)"
  by (auto simp: takeTaskToRun_def split: option.splits)

lemma takeTaskToRun_Some:
  "fst (takeTaskToRun R now now2 w) = Some t \<Longrightarrow>
     takeTaskToRun_loop (heap w) R (m_pendingTasks w) None f32_minus_one = Some t \<and>
     snd (takeTaskToRun R now now2 w) =
       w\<lparr>m_pendingTasks := stdset_erase t (m_pendingTasks w),
         heap := (heap w)(t := markStarted now now2 (heap w t)),
         m_stats := (m_stats w)\<lparr>numPending := numPending (m_stats w) - 1,
                                numRunning := numRunning (m_stats w) + 1\<rparr>\<rparr>"
  by (auto simp: takeTaskToRun_def split: option.splits)

lemma card_insert_word:
  "finite S \<Longrightarrow> p \<notin> S \<Longrightarrow> (of_nat (card (insert p S)) :: 'a::len word) = of_nat (card S) + 1"
  by simp

lemma takeTaskToRun_inv:
  assumes "db_inv w" "counters_ok w"
  shows "db_inv (snd (takeTaskToRun R now now2 w)) \<and> counters_ok (snd (takeTaskToRun R now now2 w))"
proof (cases "fst (takeTaskToRun R now now2 w)")
  case None
  then show ?thesis using assms by (simp add: takeTaskToRun_None)
next
  case (Some t)
  let ?w = "snd (takeTaskToRun R now now2 w)"
  let ?P = "{u. live w u \<and> runStatus (m_status (heap w u)) = None}"
  let ?R = "{u. live w u \<and> runStatus (m_status (heap w u)) \<noteq> None}"
  note ts = takeTaskToRun_Some [OF Some]
  have pend: "set (m_pendingTasks w) = ?P" using assms(1) by (simp add: db_inv_def)
  have tP: "t \<in> ?P" using take_loop_mem ts pend by blast
  then have tl: "live w t" and tn: "runStatus (m_status (heap w t)) = None" by auto
  have m: "m_allTasksByID ?w = m_allTasksByID w" by (simp add: ts)
  have l: "live ?w u = live w u" for u by (simp add: live_def m)
  have h: "u \<noteq> t \<Longrightarrow> heap ?w u = heap w u" for u by (simp add: ts)
  have ht: "heap ?w t = markStarted now now2 (heap w t)" by (simp add: ts)
  have hid: "m_id (heap ?w u) = m_id (heap w u)" for u
    by (cases "u = t") (simp_all add: h ht markStarted_def)
  have rt: "runStatus (m_status (heap ?w t)) \<noteq> None" using tn by (simp add: ht markStarted_def)
  have rs: "runStatus (m_status (heap ?w u)) = None \<longleftrightarrow>
             u \<noteq> t \<and> runStatus (m_status (heap w u)) = None" for u
    using rt by (cases "u = t") (simp_all add: h)
  have P': "{u. live ?w u \<and> runStatus (m_status (heap ?w u)) = None} = ?P - {t}"
    unfolding l rs by auto
  have R': "{u. live ?w u \<and> runStatus (m_status (heap ?w u)) \<noteq> None} = insert t ?R"
    unfolding l rs using tl by auto
  have sp: "set (m_pendingTasks ?w) = ?P - {t}"
    by (auto simp: ts stdset_erase_filter pend)
  have "db_inv ?w"
    unfolding db_inv_def P' using assms(1) sp
    by (simp add: db_inv_def m hid) (simp add: ts stdset_erase_filter)
  moreover have "counters_ok ?w"
  proof -
    have c1: "(of_nat (card (?P - {t})) :: int32) = of_nat (card ?P) - 1"
      by (rule card_Diff1_word [OF finite_live tP])
    have "t \<notin> ?R" using tn by simp
    then have c2: "(of_nat (card (insert t ?R)) :: int32) = of_nat (card ?R) + 1"
      by (intro card_insert_word finite_live)
    have st: "numPending (m_stats ?w) = numPending (m_stats w) - 1"
      "numRunning (m_stats ?w) = numRunning (m_stats w) + 1"
      "numCanceling (m_stats ?w) = numCanceling (m_stats w)"
      "numFinished (m_stats ?w) = numFinished (m_stats w)"
      "finishedCalls ?w = finishedCalls w"
      by (simp_all add: ts)
    show ?thesis
      unfolding counters_ok_def R' sp c1 c2 st
      using assms(2) unfolding counters_ok_def pend by simp
  qed
  ultimately show ?thesis ..
qed

lemma heartbeat_runStatus_None [simp]:
  "runStatus (m_status (heartbeat now t)) = None \<longleftrightarrow> runStatus (m_status t) = None"
  by (simp add: heartbeat_def split: option.splits)

lemma heartbeat_id [simp]: "m_id (heartbeat now t) = m_id t"
  by (simp add: heartbeat_def split: option.splits)

lemma heartbeatTask_inv:
  assumes "db_inv w" "counters_ok w"
  shows "db_inv (heartbeatTask p now w) \<and> counters_ok (heartbeatTask p now w)"
proof -
  let ?w = "heartbeatTask p now w"
  have l: "live ?w u = live w u" for u by (simp add: live_def heartbeatTask_def)
  have r: "runStatus (m_status (heap ?w u)) = None \<longleftrightarrow> runStatus (m_status (heap w u)) = None" for u
    by (simp add: heartbeatTask_def)
  have i: "m_id (heap ?w u) = m_id (heap w u)" for u by (simp add: heartbeatTask_def)
  have o: "m_allTasksByID ?w = m_allTasksByID w" "m_pendingTasks ?w = m_pendingTasks w"
    "m_stats ?w = m_stats w" "finishedCalls ?w = finishedCalls w"
    by (simp_all add: heartbeatTask_def)
  show ?thesis using assms unfolding db_inv_def counters_ok_def l r i o by simp
qed

lemma markShouldCancel_fst: "fst (markShouldCancel t) \<longleftrightarrow> runStatus (m_status t) \<noteq> None"
  by (simp add: markShouldCancel_def split: option.splits)

lemma markShouldCancel_runStatus_None [simp]:
  "runStatus (m_status (snd (markShouldCancel t))) = None \<longleftrightarrow> runStatus (m_status t) = None"
  by (simp add: markShouldCancel_def split: option.splits)

lemma markShouldCancel_id [simp]: "m_id (snd (markShouldCancel t)) = m_id t"
  by (simp add: markShouldCancel_def split: option.splits)

lemma markTaskShouldCancel_inv:
  assumes "db_inv w" "counters_ok w" "live w p"
  shows "db_inv (markTaskShouldCancel p w) \<and> counters_ok (markTaskShouldCancel p w)"
proof (cases "fst (markShouldCancel (heap w p))")
  case False
  then show ?thesis
    using markTaskFinished_db_inv [OF assms(1,3)] markTaskFinished_counters [OF assms]
    by (simp add: markTaskShouldCancel_def)
next
  case True
  let ?w = "markTaskShouldCancel p w"
  have l: "live ?w u = live w u" for u using True by (simp add: live_def markTaskShouldCancel_def)
  have r: "runStatus (m_status (heap ?w u)) = None \<longleftrightarrow> runStatus (m_status (heap w u)) = None" for u
    using True by (simp add: markTaskShouldCancel_def)
  have i: "m_id (heap ?w u) = m_id (heap w u)" for u using True by (simp add: markTaskShouldCancel_def)
  have o: "m_allTasksByID ?w = m_allTasksByID w" "m_pendingTasks ?w = m_pendingTasks w"
    "numPending (m_stats ?w) = numPending (m_stats w)"
    "numRunning (m_stats ?w) + numCanceling (m_stats ?w) = numRunning (m_stats w) + numCanceling (m_stats w)"
    "numFinished (m_stats ?w) = numFinished (m_stats w)"
    "finishedCalls ?w = finishedCalls w"
    using True by (simp_all add: markTaskShouldCancel_def)
  show ?thesis using assms(1,2) unfolding db_inv_def counters_ok_def l r i o by simp
qed

lemma cleanupIfZombieTask_alt:
  "cleanupIfZombieTask p T now w =
     (if isZombie T now (heap w p) then (True, markTaskFinished p w) else (False, w))"
  by (simp add: cleanupIfZombieTask_def isZombie_def)

lemma markTaskFinished_key_gone:
  "map_of (m_allTasksByID (markTaskFinished p w)) (m_id (heap w p)) = None"
  by (auto simp: markTaskFinished_def stdmap_erase_filter map_of_eq_None_iff)

lemma cleanup_loop_char:
  assumes "db_inv w" "set entries \<subseteq> set (m_allTasksByID w)"
  shows "cleanupZombieTasks_loop entries T now w =
     (case find (\<lambda>e. isZombie T now (heap w (snd e))) entries of
        None \<Rightarrow> Returned w
      | Some e \<Rightarrow> IteratorInvalid (markTaskFinished (snd e) w))"
  using assms
proof (induction entries)
  case Nil
  then show ?case by simp
next
  case (Cons item entries)
  obtain k p where item: "item = (k, p)" by (cases item)
  with Cons.prems have mem: "(k, p) \<in> set (m_allTasksByID w)" by simp
  then have key: "m_id (heap w p) = k" using Cons.prems(1) by (rule db_inv_key [rotated])
  show ?case
  proof (cases "isZombie T now (heap w p)")
    case True
    then show ?thesis
      using markTaskFinished_key_gone [of p w] by (simp add: item cleanupIfZombieTask_alt key)
  next
    case False
    have "map_of (m_allTasksByID w) k \<noteq> None"
      using mem by (simp add: map_of_eq_None_iff) force
    with False Cons show ?thesis by (auto simp: item cleanupIfZombieTask_alt)
  qed
qed

lemma cleanupZombieTasks_char:
  "db_inv w \<Longrightarrow> cleanupZombieTasks T now w =
     (case find (\<lambda>e. isZombie T now (heap w (snd e))) (m_allTasksByID w) of
        None \<Rightarrow> Returned w
      | Some e \<Rightarrow> IteratorInvalid (markTaskFinished (snd e) w))"
  by (simp add: cleanupZombieTasks_def cleanup_loop_char)

lemma cleanupZombieTasks_inv:
  assumes "db_inv w" "counters_ok w"
    and "cleanupZombieTasks T now w = Returned w' \<or> cleanupZombieTasks T now w = IteratorInvalid w'"
  shows "db_inv w' \<and> counters_ok w'"
proof (cases "find (\<lambda>e. isZombie T now (heap w (snd e))) (m_allTasksByID w)")
  case None
  with assms show ?thesis by (simp add: cleanupZombieTasks_char)
next
  case (Some e)
  then have "e \<in> set (m_allTasksByID w)" by (auto simp: find_Some_iff)
  then have "live w (snd e)" by (auto simp: live_def)
  moreover have "w' = markTaskFinished (snd e) w"
    using assms(1,3) Some by (simp add: cleanupZombieTasks_char)
  ultimately show ?thesis
    using markTaskFinished_db_inv [OF assms(1)] markTaskFinished_counters [OF assms(1,2)] by simp
qed

lemma emptyDatabase_inv: "db_inv (emptyDatabase h) \<and> counters_ok (emptyDatabase h)"
  by (simp add: db_inv_def counters_ok_def emptyDatabase_def live_def TaskStats_init_def)

lemma exec_inv:
  assumes "db_inv w \<and> counters_ok w" "exec c w = Completed w' \<or> exec c w = Undefined w'"
  shows "db_inv w' \<and> counters_ok w'"
proof (cases c)
  case (CreateTask info rnd task now)
  with assms(2) obtain q where "\<not> live w task" "createTask info rnd task now w = Found (q, w')"
    by (auto split: if_splits sampled.splits)
  then show ?thesis using createTask_inv assms(1) by blast
next
  case (TakeTaskToRun R now now2)
  with assms show ?thesis using takeTaskToRun_inv [of w R now now2] by auto
next
  case (HeartbeatTask task now)
  with assms show ?thesis using heartbeatTask_inv [of w task now] by (auto split: if_splits)
next
  case (MarkTaskFinished task)
  with assms show ?thesis
    using markTaskFinished_db_inv [of w task] markTaskFinished_counters [of w task]
    by (auto split: if_splits)
next
  case (MarkTaskShouldCancel task)
  with assms show ?thesis using markTaskShouldCancel_inv [of w task] by (auto split: if_splits)
next
  case (CleanupZombieTasks T now)
  with assms(2) have "cleanupZombieTasks T now w = Returned w' \<or> cleanupZombieTasks T now w = IteratorInvalid w'"
    by (auto split: loop_end.splits)
  then show ?thesis using cleanupZombieTasks_inv assms(1) by blast
next
  case (GetTasksByStates states)
  with assms show ?thesis by auto
qed

lemma run_inv:
  "db_inv w \<and> counters_ok w \<Longrightarrow> run w calls = Completed w' \<or> run w calls = Undefined w' \<Longrightarrow>
   db_inv w' \<and> counters_ok w'"
proof (induction calls arbitrary: w)
  case Nil
  then show ?case by simp
next
  case (Cons c calls)
  show ?case
  proof (cases "exec c w")
    case (Completed w1)
    with Cons.prems(1) have "db_inv w1 \<and> counters_ok w1" using exec_inv by blast
    moreover from Cons.prems(2) Completed
    have "run w1 calls = Completed w' \<or> run w1 calls = Undefined w'" by simp
    ultimately show ?thesis by (rule Cons.IH)
  next
    case (Undefined w1)
    with Cons.prems(2) have "w1 = w'" by simp
    with Undefined Cons.prems(1) show ?thesis using exec_inv by blast
  next
    case Terminated
    with Cons.prems(2) show ?thesis by simp
  next
    case Inadmissible
    with Cons.prems(2) show ?thesis by simp
  qed
qed

subsection \<open>Counter consistency\<close>

lemma run_append:
  "run w (xs @ ys) = (case run w xs of Completed w' \<Rightarrow> run w' ys | Undefined w' \<Rightarrow> Undefined w'
     | Terminated \<Rightarrow> Terminated | Inadmissible \<Rightarrow> Inadmissible)"
  by (induction xs arbitrary: w) (auto split: run_result.splits)

lemma sint_of_nat_32: "n < 2 ^ 31 \<Longrightarrow> sint (of_nat n :: int32) = int n"
  by (simp add: signed_of_nat signed_take_bit_int_eq_self)

lemma unat_of_nat_64: "n < 2 ^ 64 \<Longrightarrow> unat (of_nat n :: 64 word) = n"
  by (simp add: unat_of_nat)

text \<open>
  Claim C1 (counter consistency), as amended. After any sequence of database calls on an
  initially empty database in which every handle passed to \<^verbatim>\<open>heartbeatTask\<close>,
  \<^verbatim>\<open>markTaskFinished\<close> or \<^verbatim>\<open>markTaskShouldCancel\<close> is live when it is passed (the state is the
  final one, or the one in which a call of \<^verbatim>\<open>cleanupZombieTasks\<close> has erased a task; what
  that call does next is undefined and is left out), the counter equations hold in the
  arithmetic of the counters: \<^verbatim>\<open>numPending\<close> is the size of the pending set and
  \<^verbatim>\<open>numRunning + numCanceling\<close> the number of live tasks that have a \<open>runStatus\<close>, both modulo
  \<open>2^32\<close>, and \<^verbatim>\<open>numFinished\<close> is the number of calls of \<^verbatim>\<open>markTaskFinished\<close> modulo \<open>2^64\<close>.
  Read as signed 32-bit values, \<^verbatim>\<open>numPending\<close> and the 32-bit sum \<^verbatim>\<open>numRunning + numCanceling\<close>
  are these numbers themselves while the numbers are below \<open>2^31\<close>, and \<^verbatim>\<open>numFinished\<close> is the
  number of calls while that is below \<open>2^64\<close>. Cancelling a task again moves \<^verbatim>\<open>numRunning\<close>
  and \<^verbatim>\<open>numCanceling\<close> again, but not their sum.
\<close>

theorem counter_consistency:
  assumes "run (emptyDatabase h) calls = Completed w \<or> run (emptyDatabase h) calls = Undefined w"
  shows "numPending (m_stats w) = of_nat (card (set (m_pendingTasks w))) \<and>
         numRunning (m_stats w) + numCanceling (m_stats w) =
           of_nat (card {task. live w task \<and> runStatus (m_status (heap w task)) \<noteq> None}) \<and>
         numFinished (m_stats w) = of_nat (length (finishedCalls w)) \<and>
         (card (set (m_pendingTasks w)) < 2 ^ 31 \<longrightarrow>
            sint (numPending (m_stats w)) = int (card (set (m_pendingTasks w)))) \<and>
         (card {task. live w task \<and> runStatus (m_status (heap w task)) \<noteq> None} < 2 ^ 31 \<longrightarrow>
            sint (numRunning (m_stats w) + numCanceling (m_stats w)) =
              int (card {task. live w task \<and> runStatus (m_status (heap w task)) \<noteq> None})) \<and>
         (length (finishedCalls w) < 2 ^ 64 \<longrightarrow>
            unat (numFinished (m_stats w)) = length (finishedCalls w))"
proof -
  have c: "counters_ok w" using run_inv [OF emptyDatabase_inv assms] ..
  then show ?thesis
    unfolding counters_ok_def by (auto simp: sint_of_nat_32 unat_of_nat_64)
qed

lemma cancelTwice_run:
  "run (emptyDatabase blankHeap) cancelTwice = Completed cancelTwice_final"
  by (simp add: cancelTwice_def cancelTwice_final_def emptyDatabase_def createTask_def
      getUnusedTaskID_def getUnusedTaskID_loop.simps getTaskByID_def stdmap_assign_def
      stdset_insert_def live_def takeTaskToRun_def loop_Cons eligible_def taskScore_def score_def
      Task_new_def echoInfo_def f32_minus_one_def f32_0_999_value markStarted_def
      markTaskShouldCancel_def markShouldCancel_def markTaskFinished_def TaskStats_init_def
      blankHeap_def)

lemma cancelTwice_final_dispatched:
  "{task. live cancelTwice_final task \<and>
          runStatus (m_status (heap cancelTwice_final task)) \<noteq> None} = {1}"
  by (auto simp: cancelTwice_final_def live_def)

theorem counter_consistency_witness:
  "run (emptyDatabase blankHeap) cancelTwice = Completed cancelTwice_final \<and>
   sint (numRunning (m_stats cancelTwice_final)) = - 1 \<and>
   sint (numCanceling (m_stats cancelTwice_final)) = 2 \<and>
   card (set (m_pendingTasks cancelTwice_final)) = 0 \<and>
   card {task. live cancelTwice_final task \<and>
               runStatus (m_status (heap cancelTwice_final task)) \<noteq> None} = 1 \<and>
   length (finishedCalls cancelTwice_final) = 1 \<and>
   sint (numPending (m_stats cancelTwice_final)) = 0 \<and>
   sint (numRunning (m_stats cancelTwice_final) + numCanceling (m_stats cancelTwice_final)) = 1 \<and>
   unat (numFinished (m_stats cancelTwice_final)) = 1"
proof -
  have n: "card (set (m_pendingTasks cancelTwice_final)) = 0"
    "length (finishedCalls cancelTwice_final) = 1"
    "sint (numRunning (m_stats cancelTwice_final)) = - 1"
    "sint (numCanceling (m_stats cancelTwice_final)) = 2"
    by (simp_all add: cancelTwice_final_def)
  show ?thesis
    using counter_consistency [of blankHeap cancelTwice cancelTwice_final] cancelTwice_run n
    unfolding cancelTwice_final_dispatched by simp
qed

lemma dispatchOne_run:
  "run (emptyDatabase blankHeap) dispatchOne = Completed dispatchOne_final"
  by (simp add: dispatchOne_def dispatchOne_final_def emptyDatabase_def createTask_def
      getUnusedTaskID_def getUnusedTaskID_loop.simps getTaskByID_def stdmap_assign_def
      stdset_insert_def live_def takeTaskToRun_def loop_Cons eligible_def taskScore_def score_def
      Task_new_def echoInfo_def f32_minus_one_def f32_0_999_value markStarted_def
      TaskStats_init_def blankHeap_def)

lemma cancelTimes_step:
  "exec (MarkTaskShouldCancel 1) (cancelTimes n) = Completed (cancelTimes (Suc n))"
  by (simp add: cancelTimes_def live_def markTaskShouldCancel_def markShouldCancel_def
      fun_upd_twist)

lemma cancelTimes_first:
  "exec (MarkTaskShouldCancel 1) dispatchOne_final = Completed (cancelTimes 1)"
  by (simp add: cancelTimes_def dispatchOne_final_def live_def markTaskShouldCancel_def
      markShouldCancel_def fun_upd_twist)

lemma cancelCalls_run:
  "run dispatchOne_final (cancelCalls (Suc n)) = Completed (cancelTimes (Suc n))"
proof (induction n)
  case 0
  then show ?case using cancelTimes_first by (simp add: cancelCalls_def)
next
  case (Suc n)
  have "cancelCalls (Suc (Suc n)) = cancelCalls (Suc n) @ [MarkTaskShouldCancel 1]"
    by (simp add: cancelCalls_def replicate_append_same)
  then show ?case using Suc cancelTimes_step [of "Suc n"] by (simp add: run_append)
qed

lemma cancelTimes_dispatched:
  "{task. live (cancelTimes n) task \<and> runStatus (m_status (heap (cancelTimes n) task)) \<noteq> None} = {1}"
  by (auto simp: cancelTimes_def live_def)

lemma finishedTwice_dispatched:
  "{task. live finishedTwice task \<and> runStatus (m_status (heap finishedTwice task)) \<noteq> None} = {}"
  by (auto simp: finishedTwice_def finishedOne_def markTaskFinished_def dispatchOne_final_def
      live_def)

text \<open>
  The equations of the claim as the specification has them fail in two ways. A task that is
  cancelled \<open>2^31\<close> times leaves \<^verbatim>\<open>numCanceling\<close> at \<open>- 2^31\<close> and \<^verbatim>\<open>numRunning\<close> at \<open>1 - 2^31\<close>,
  whose sum is one only in 32-bit arithmetic. And a call of \<^verbatim>\<open>markTaskFinished\<close> on a task
  that has finished already decrements a counter for a task that is in no container.
\<close>

theorem counter_consistency_counterexample:
  "run (emptyDatabase blankHeap) (dispatchOne @ cancelCalls 2147483648) =
     Completed (cancelTimes 2147483648) \<and>
   card {task. live (cancelTimes 2147483648) task \<and>
               runStatus (m_status (heap (cancelTimes 2147483648) task)) \<noteq> None} = 1 \<and>
   sint (numRunning (m_stats (cancelTimes 2147483648))) = - 2147483647 \<and>
   sint (numCanceling (m_stats (cancelTimes 2147483648))) = - 2147483648 \<and>
   run (emptyDatabase blankHeap) (dispatchOne @ [MarkTaskFinished 1]) = Completed finishedOne \<and>
   \<not> live finishedOne 1 \<and>
   finishedTwice = markTaskFinished 1 finishedOne \<and>
   card {task. live finishedTwice task \<and>
               runStatus (m_status (heap finishedTwice task)) \<noteq> None} = 0 \<and>
   sint (numRunning (m_stats finishedTwice)) = - 1 \<and>
   sint (numCanceling (m_stats finishedTwice)) = 0 \<and>
   sint (numRunning (m_stats finishedTwice) + numCanceling (m_stats finishedTwice)) = - 1 \<and>
   length (finishedCalls finishedTwice) = 2 \<and>
   card (set (m_pendingTasks finishedTwice)) = 1 \<and>
   sint (numPending (m_stats finishedTwice)) = 1"
proof -
  have a: "run (emptyDatabase blankHeap) (dispatchOne @ cancelCalls 2147483648) =
      Completed (cancelTimes 2147483648)"
    using cancelCalls_run [of 2147483647] dispatchOne_run by (simp add: run_append)
  have b: "sint (numRunning (m_stats (cancelTimes 2147483648))) = - 2147483647"
    "sint (numCanceling (m_stats (cancelTimes 2147483648))) = - 2147483648"
    by (simp_all add: cancelTimes_def)
  have c: "run (emptyDatabase blankHeap) (dispatchOne @ [MarkTaskFinished 1]) = Completed finishedOne"
    using dispatchOne_run
    by (simp add: run_append finishedOne_def) (simp add: dispatchOne_final_def live_def)
  have d: "\<not> live finishedOne 1"
    by (simp add: finishedOne_def markTaskFinished_def dispatchOne_final_def live_def)
  have e: "sint (numRunning (m_stats finishedTwice) + numCanceling (m_stats finishedTwice)) = - 1"
    "sint (numRunning (m_stats finishedTwice)) = - 1"
    "sint (numCanceling (m_stats finishedTwice)) = 0"
    "length (finishedCalls finishedTwice) = 2"
    "card (set (m_pendingTasks finishedTwice)) = 1"
    "sint (numPending (m_stats finishedTwice)) = 1"
    by (simp_all add: finishedTwice_def finishedOne_def markTaskFinished_def dispatchOne_final_def)
  show ?thesis
    unfolding cancelTimes_dispatched finishedTwice_dispatched
    using a b c d e by (simp add: finishedTwice_def)
qed

subsection \<open>Heartbeats\<close>

text \<open>
  Claim C6 (heartbeat), as amended. \<^verbatim>\<open>heartbeatTask\<close> on a task that has a \<open>runStatus\<close>, whether
  Running or Canceling, sets \<open>heartbeatTime\<close> to the current time and changes nothing else;
  on a Pending task it changes nothing at all.
\<close>

theorem heartbeatTask_effect:
  "(getState (m_status (heap w task)) = Pending \<longrightarrow> heartbeatTask task now w = w) \<and>
   (\<forall>rs. runStatus (m_status (heap w task)) = Some rs \<longrightarrow>
      getState (m_status (heap w task)) \<noteq> Pending \<and>
      heartbeatTask task now w =
        w\<lparr>heap := (heap w)(task := (heap w task)\<lparr>m_status :=
             (m_status (heap w task))\<lparr>runStatus := Some (rs\<lparr>heartbeatTime := now\<rparr>)\<rparr>\<rparr>)\<rparr>)"
  by (auto simp: heartbeatTask_def heartbeat_def getState_def split: option.splits)

theorem heartbeatTask_effect_witness:
  "getState (m_status (heap cancelTwice_final 1)) = Canceling \<and>
   runStatus (m_status (heap cancelTwice_final 1)) =
     Some \<lparr>wasCanceled = True, startTime = 1, heartbeatTime = 1\<rparr> \<and>
   runStatus (m_status (heap (heartbeatTask 1 7 cancelTwice_final) 1)) =
     Some \<lparr>wasCanceled = True, startTime = 1, heartbeatTime = 7\<rparr> \<and>
   getState (m_status (heap dispatchOne_final 2)) = Pending \<and>
   heartbeatTask 2 7 dispatchOne_final = dispatchOne_final"
  using heartbeatTask_effect [of cancelTwice_final 1 7] heartbeatTask_effect [of dispatchOne_final 2 7]
  by (simp add: cancelTwice_final_def dispatchOne_final_def getState_def)

theorem heartbeatTask_canceling_counterexample:
  "getState (m_status (heap cancelTwice_final 1)) \<noteq> Running \<and>
   m_status (heap (heartbeatTask 1 7 cancelTwice_final) 1) \<noteq> m_status (heap cancelTwice_final 1)"
  by (simp add: heartbeatTask_def heartbeat_def getState_def cancelTwice_final_def)

lemma reachable_inv:
  "run (emptyDatabase h) calls = Completed w \<Longrightarrow> db_inv w \<and> counters_ok w"
  using run_inv [OF emptyDatabase_inv] by blast

lemma getState_Pending_iff: "getState st = Pending \<longleftrightarrow> runStatus st = None"
  by (simp add: getState_def split: option.splits)

lemma getState_Running_iff:
  "getState st = Running \<longleftrightarrow> (\<exists>rs. runStatus st = Some rs \<and> \<not> wasCanceled rs)"
  by (simp add: getState_def split: option.splits)

lemma getState_Canceling_iff:
  "getState st = Canceling \<longleftrightarrow> (\<exists>rs. runStatus st = Some rs \<and> wasCanceled rs)"
  by (simp add: getState_def split: option.splits)

subsection \<open>Cancellation\<close>

text \<open>
  Claim C7 (contract of \<^verbatim>\<open>markTaskShouldCancel\<close>), as amended. On a live Running task the task
  becomes Canceling (\<open>wasCanceled\<close> is set, the rest of its \<open>runStatus\<close> is kept) and one unit
  moves from \<^verbatim>\<open>numRunning\<close> to \<^verbatim>\<open>numCanceling\<close>; on a live Pending task the task is removed
  from the map and from the pending set and is counted as finished. The database operation
  returns no value; the only Boolean is the result of \<^verbatim>\<open>Task::markShouldCancel\<close>, which is
  false exactly for a task without \<open>runStatus\<close> and says nothing about presence.
\<close>

theorem markTaskShouldCancel_contract:
  assumes "run (emptyDatabase h) calls = Completed w" and "live w task"
    and "w' = markTaskShouldCancel task w"
  shows "(getState (m_status (heap w task)) = Running \<longrightarrow>
            getState (m_status (heap w' task)) = Canceling \<and> live w' task \<and>
            (\<exists>rs. runStatus (m_status (heap w task)) = Some rs \<and>
                  runStatus (m_status (heap w' task)) = Some (rs\<lparr>wasCanceled := True\<rparr>)) \<and>
            numRunning (m_stats w') = numRunning (m_stats w) - 1 \<and>
            numCanceling (m_stats w') = numCanceling (m_stats w) + 1 \<and>
            numPending (m_stats w') = numPending (m_stats w) \<and>
            numFinished (m_stats w') = numFinished (m_stats w)) \<and>
         (getState (m_status (heap w task)) = Pending \<longrightarrow>
            \<not> live w' task \<and> task \<notin> set (m_pendingTasks w') \<and>
            getTaskByID (m_id (heap w task)) w' = None \<and>
            numPending (m_stats w') = numPending (m_stats w) - 1 \<and>
            numFinished (m_stats w') = numFinished (m_stats w) + 1 \<and>
            finishedCalls w' = finishedCalls w @ [task]) \<and>
         (fst (markShouldCancel (heap w task)) \<longleftrightarrow> getState (m_status (heap w task)) \<noteq> Pending)"
proof (intro conjI impI)
  assume r: "getState (m_status (heap w task)) = Running"
  then obtain rs where rs: "runStatus (m_status (heap w task)) = Some rs" "\<not> wasCanceled rs"
    by (auto simp: getState_Running_iff)
  then have w': "w' = w\<lparr>heap := (heap w)(task := snd (markShouldCancel (heap w task))),
             m_stats := (m_stats w)\<lparr>numRunning := numRunning (m_stats w) - 1,
                                    numCanceling := numCanceling (m_stats w) + 1\<rparr>\<rparr>"
    by (simp add: assms(3) markTaskShouldCancel_def markShouldCancel_fst)
  show "getState (m_status (heap w' task)) = Canceling"
    using rs by (simp add: w' markShouldCancel_def getState_def)
  show "live w' task" using assms(2) by (simp add: w' live_def)
  show "\<exists>rs. runStatus (m_status (heap w task)) = Some rs \<and>
             runStatus (m_status (heap w' task)) = Some (rs\<lparr>wasCanceled := True\<rparr>)"
    using rs by (simp add: w' markShouldCancel_def)
  show "numRunning (m_stats w') = numRunning (m_stats w) - 1"
    "numCanceling (m_stats w') = numCanceling (m_stats w) + 1"
    "numPending (m_stats w') = numPending (m_stats w)"
    "numFinished (m_stats w') = numFinished (m_stats w)"
    by (simp_all add: w')
next
  assume p: "getState (m_status (heap w task)) = Pending"
  then have n: "runStatus (m_status (heap w task)) = None" by (simp add: getState_Pending_iff)
  then have w': "w' = markTaskFinished task w"
    by (simp add: assms(3) markTaskShouldCancel_def markShouldCancel_fst)
  have inv: "db_inv w" using reachable_inv [OF assms(1)] ..
  show "\<not> live w' task" by (simp add: w' markTaskFinished_live [OF inv assms(2)])
  show "task \<notin> set (m_pendingTasks w')" by (simp add: w' stdset_erase_filter)
  show "getTaskByID (m_id (heap w task)) w' = None"
    by (simp add: w' getTaskByID_def markTaskFinished_key_gone)
  show "numPending (m_stats w') = numPending (m_stats w) - 1"
    "numFinished (m_stats w') = numFinished (m_stats w) + 1"
    using n by (simp_all add: w' markTaskFinished_def)
  show "finishedCalls w' = finishedCalls w @ [task]" by (simp add: w')
next
  show "fst (markShouldCancel (heap w task)) = (getState (m_status (heap w task)) \<noteq> Pending)"
    by (simp add: markShouldCancel_fst getState_Pending_iff)
qed

theorem markTaskShouldCancel_contract_witness:
  "run (emptyDatabase blankHeap) dispatchOne = Completed dispatchOne_final \<and>
   live dispatchOne_final 1 \<and> getState (m_status (heap dispatchOne_final 1)) = Running \<and>
   getState (m_status (heap (markTaskShouldCancel 1 dispatchOne_final) 1)) = Canceling \<and>
   numRunning (m_stats (markTaskShouldCancel 1 dispatchOne_final)) = 0 \<and>
   numCanceling (m_stats (markTaskShouldCancel 1 dispatchOne_final)) = 1 \<and>
   live dispatchOne_final 2 \<and> getState (m_status (heap dispatchOne_final 2)) = Pending \<and>
   \<not> live (markTaskShouldCancel 2 dispatchOne_final) 2 \<and>
   numPending (m_stats (markTaskShouldCancel 2 dispatchOne_final)) = 0 \<and>
   numFinished (m_stats (markTaskShouldCancel 2 dispatchOne_final)) = 1"
  using markTaskShouldCancel_contract [OF dispatchOne_run, of 1 "markTaskShouldCancel 1 dispatchOne_final"]
    markTaskShouldCancel_contract [OF dispatchOne_run, of 2 "markTaskShouldCancel 2 dispatchOne_final"]
    dispatchOne_run
  by (simp add: live_def getState_def dispatchOne_final_def)

theorem markTaskShouldCancel_absent_counterexample:
  "\<not> live finishedOne 1 \<and> getTaskByID (m_id (heap finishedOne 1)) finishedOne = None \<and>
   fst (markShouldCancel (heap finishedOne 1)) \<and>
   numCanceling (m_stats (markTaskShouldCancel 1 finishedOne)) = numCanceling (m_stats finishedOne) + 1 \<and>
   markTaskShouldCancel 1 finishedOne \<noteq> finishedOne"
proof -
  have a: "\<not> live finishedOne 1" "getTaskByID (m_id (heap finishedOne 1)) finishedOne = None"
    "fst (markShouldCancel (heap finishedOne 1))"
    by (simp_all add: finishedOne_def markTaskFinished_def dispatchOne_final_def live_def
        getTaskByID_def markShouldCancel_def)
  have b: "numCanceling (m_stats (markTaskShouldCancel 1 finishedOne)) = numCanceling (m_stats finishedOne) + 1"
    using a(3) by (simp add: markTaskShouldCancel_def)
  then have "markTaskShouldCancel 1 finishedOne \<noteq> finishedOne" by auto
  with a b show ?thesis by simp
qed

lemma createTask_frame:
  assumes "createTask info rnd task now w = Found (q, w')" "live w p" "\<not> live w task"
  shows "live w' p \<and> heap w' p = heap w p"
proof -
  from assms(1) obtain ident where f: "fst (getUnusedTaskID rnd w) = Found ident"
    and w': "w' = w\<lparr>heap := (heap w)(task := Task_new ident info now),
              m_allTasksByID := stdmap_assign ident task (m_allTasksByID w),
              m_pendingTasks := stdset_insert task (m_pendingTasks w),
              m_stats := (m_stats w)\<lparr>numPending := numPending (m_stats w) + 1\<rparr>\<rparr>"
    by (auto simp: createTask_def split: sampled.splits)
  have fresh: "ident \<notin> fst ` set (m_allTasksByID w)"
    using getUnusedTaskID_Found [OF f] by (simp add: getTaskByID_def map_of_None_keys)
  have "p \<noteq> task" using assms(2,3) by auto
  then show ?thesis using assms(2) by (auto simp: w' live_def set_stdmap_assign [OF fresh])
qed

lemma takeTaskToRun_frame:
  assumes "runStatus (m_status (heap w p)) \<noteq> None"
  shows "live (snd (takeTaskToRun R now now2 w)) p = live w p \<and> heap (snd (takeTaskToRun R now now2 w)) p = heap w p"
proof (cases "fst (takeTaskToRun R now now2 w)")
  case None
  then show ?thesis by (simp add: takeTaskToRun_None)
next
  case (Some t)
  show ?thesis
    using assms by (cases "t = p") (simp_all add: takeTaskToRun_Some [OF Some] live_def markStarted_def)
qed

lemma exec_keeps_canceling:
  assumes inv: "db_inv w" and l: "live w p" and c: "getState (m_status (heap w p)) = Canceling"
    and nr: "\<not> removes c" and ex: "exec c w = Completed w'"
  shows "live w' p \<and> getState (m_status (heap w' p)) = Canceling"
proof (cases c)
  case (CreateTask info rnd task now)
  with ex obtain q where "\<not> live w task" "createTask info rnd task now w = Found (q, w')"
    by (auto split: if_splits sampled.splits)
  with createTask_frame [of info rnd task now w q w' p] l c show ?thesis by simp
next
  case (TakeTaskToRun R now now2)
  have "runStatus (m_status (heap w p)) \<noteq> None" using c by (auto simp: getState_Canceling_iff)
  from takeTaskToRun_frame [OF this, of R now now2] TakeTaskToRun ex l c show ?thesis by auto
next
  case (HeartbeatTask task now)
  with ex have w': "w' = heartbeatTask task now w" by (auto split: if_splits)
  show ?thesis using l c
    by (auto simp: w' heartbeatTask_def heartbeat_def live_def getState_def split: option.splits)
next
  case (MarkTaskFinished task)
  with nr show ?thesis by simp
next
  case (MarkTaskShouldCancel task)
  with ex have lt: "live w task" and w': "w' = markTaskShouldCancel task w" by (auto split: if_splits)
  show ?thesis
  proof (cases "fst (markShouldCancel (heap w task))")
    case True
    then show ?thesis using l c
      by (auto simp: w' markTaskShouldCancel_def markShouldCancel_def live_def getState_def
          split: option.splits)
  next
    case False
    then have "runStatus (m_status (heap w task)) = None" by (simp add: markShouldCancel_fst)
    with c have "p \<noteq> task" by (auto simp: getState_def)
    with False l c show ?thesis
      by (simp add: w' markTaskShouldCancel_def markTaskFinished_live [OF inv lt])
  qed
next
  case (CleanupZombieTasks T now)
  with nr show ?thesis by simp
next
  case (GetTasksByStates states)
  with ex l c show ?thesis by simp
qed

lemma run_keeps_canceling:
  "db_inv w \<and> counters_ok w \<Longrightarrow> live w p \<Longrightarrow> getState (m_status (heap w p)) = Canceling \<Longrightarrow>
   \<forall>c \<in> set calls. \<not> removes c \<Longrightarrow> run w calls = Completed w' \<Longrightarrow>
   live w' p \<and> getState (m_status (heap w' p)) = Canceling"
proof (induction calls arbitrary: w)
  case Nil
  then show ?case by simp
next
  case (Cons c calls)
  from Cons.prems(5) obtain w1 where e: "exec c w = Completed w1" and r: "run w1 calls = Completed w'"
    by (auto split: run_result.splits)
  have i1: "db_inv w1 \<and> counters_ok w1" using exec_inv [OF Cons.prems(1)] e by blast
  have "live w1 p \<and> getState (m_status (heap w1 p)) = Canceling"
    using exec_keeps_canceling [OF _ Cons.prems(2,3) _ e] Cons.prems(1,4) by simp
  with Cons.IH [OF i1 _ _ _ r] Cons.prems(4) show ?case by simp
qed

subsection \<open>Cancellation is monotone\<close>

text \<open>
  Claim C9 (monotone cancellation). In a database reached from the empty one, a live task
  whose \<open>wasCanceled\<close> is true (state Canceling) is still live and still Canceling after any
  sequence of calls of \<^verbatim>\<open>heartbeatTask\<close>, \<^verbatim>\<open>takeTaskToRun\<close>, \<^verbatim>\<open>markTaskShouldCancel\<close>,
  \<^verbatim>\<open>createTask\<close> and \<^verbatim>\<open>getTasksByStates\<close>: nothing resets \<open>wasCanceled\<close>.
\<close>

theorem monotone_cancellation:
  assumes "run (emptyDatabase h) before = Completed w"
    and "live w task" and "getState (m_status (heap w task)) = Canceling"
    and "\<forall>c \<in> set calls. \<not> removes c"
    and "run w calls = Completed w'"
  shows "live w' task \<and>
         (\<exists>rs. runStatus (m_status (heap w' task)) = Some rs \<and> wasCanceled rs)"
  using run_keeps_canceling [OF reachable_inv [OF assms(1)] assms(2-5)]
  by (simp add: getState_Canceling_iff)

theorem monotone_cancellation_witness:
  "run (emptyDatabase blankHeap) cancelTwice = Completed cancelTwice_final \<and>
   live cancelTwice_final 1 \<and> getState (m_status (heap cancelTwice_final 1)) = Canceling \<and>
   list_all (\<lambda>c. \<not> removes c) moreCalls \<and>
   (\<exists>w'. run cancelTwice_final moreCalls = Completed w' \<and> live w' 1 \<and>
      (\<exists>rs. runStatus (m_status (heap w' 1)) = Some rs \<and> wasCanceled rs))"
proof -
  have a: "live cancelTwice_final 1" "getState (m_status (heap cancelTwice_final 1)) = Canceling"
    by (simp_all add: cancelTwice_final_def live_def getState_def)
  have b: "\<forall>c \<in> set moreCalls. \<not> removes c" by (simp add: moreCalls_def)
  obtain w' where r: "run cancelTwice_final moreCalls = Completed w'"
    by (simp add: moreCalls_def cancelTwice_final_def createTask_def
      getUnusedTaskID_def getUnusedTaskID_loop.simps getTaskByID_def stdmap_assign_def
      stdset_insert_def live_def takeTaskToRun_def loop_Cons eligible_def taskScore_def score_def
      Task_new_def echoInfo_def f32_minus_one_def f32_0_999_value markStarted_def
      markTaskShouldCancel_def markShouldCancel_def heartbeatTask_def heartbeat_def
      blankHeap_def)
  from monotone_cancellation [OF cancelTwice_run a b r] r a b cancelTwice_run
  show ?thesis by (auto simp: list_all_iff)
qed

lemma isZombie_pending: "runStatus (m_status t) = None \<Longrightarrow> \<not> isZombie T now t"
  by (simp add: isZombie_def)

lemma cleanupZombieTasks_keeps_pending:
  assumes inv: "db_inv w"
    and "live w task" and n: "runStatus (m_status (heap w task)) = None"
    and "cleanupZombieTasks T now w = Returned w' \<or> cleanupZombieTasks T now w = IteratorInvalid w'"
  shows "live w' task \<and> task \<in> set (m_pendingTasks w') \<and> heap w' task = heap w task"
proof -
  have pend: "task \<in> set (m_pendingTasks w)" using inv assms(2) n by (simp add: db_inv_def)
  show ?thesis
  proof (cases "find (\<lambda>e. isZombie T now (heap w (snd e))) (m_allTasksByID w)")
    case None
    with assms(4) have "w' = w" by (simp add: cleanupZombieTasks_char [OF inv])
    with assms(2) pend show ?thesis by simp
  next
    case (Some e)
    then have e: "e \<in> set (m_allTasksByID w)" "isZombie T now (heap w (snd e))"
      by (auto simp: find_Some_iff)
    then have le: "live w (snd e)" by (auto simp: live_def)
    have ne: "task \<noteq> snd e" using e(2) isZombie_pending [OF n] by auto
    have w': "w' = markTaskFinished (snd e) w"
      using assms(4) Some by (simp add: cleanupZombieTasks_char [OF inv])
    show ?thesis
      using assms(2) pend ne
      by (simp add: w' markTaskFinished_live [OF inv le] stdset_erase_filter)
  qed
qed

lemma cleanups_keep_pending:
  "db_inv w \<and> counters_ok w \<Longrightarrow> live w task \<Longrightarrow> runStatus (m_status (heap w task)) = None \<Longrightarrow>
   \<forall>c \<in> set calls. isCleanup c \<Longrightarrow>
   run w calls = Completed w' \<or> run w calls = Undefined w' \<Longrightarrow>
   live w' task \<and> task \<in> set (m_pendingTasks w') \<and> heap w' task = heap w task"
proof (induction calls arbitrary: w)
  case Nil
  then show ?case by (simp add: db_inv_def)
next
  case (Cons c calls)
  from Cons.prems(4) obtain T now where c: "c = CleanupZombieTasks T now"
    by (cases c) simp_all
  show ?case
  proof (cases "cleanupZombieTasks T now w")
    case (Returned w1)
    then have e: "exec c w = Completed w1" by (simp add: c)
    have k: "live w1 task \<and> task \<in> set (m_pendingTasks w1) \<and> heap w1 task = heap w task"
      using cleanupZombieTasks_keeps_pending [of w task T now w1] Cons.prems(1,2,3) Returned by simp
    have i1: "db_inv w1 \<and> counters_ok w1" using exec_inv [OF Cons.prems(1)] e by blast
    have r: "run w1 calls = Completed w' \<or> run w1 calls = Undefined w'"
      using Cons.prems(5) e by simp
    from Cons.IH [OF i1 _ _ _ r] k Cons.prems(3,4) show ?thesis by simp
  next
    case (IteratorInvalid w1)
    then have "exec c w = Undefined w1" by (simp add: c)
    with Cons.prems(5) have "w' = w1" by simp
    with cleanupZombieTasks_keeps_pending [of w task T now w1] Cons.prems(1,2,3) IteratorInvalid
    show ?thesis by simp
  qed
qed

subsection \<open>The reaper and pending tasks\<close>

text \<open>
  Claim C10 (a pending task is never reaped). For every timeout and every clock reading,
  \<^verbatim>\<open>cleanupIfZombieTask\<close> on a Pending task reports \<open>false\<close> and changes nothing; and after any
  number of calls of \<^verbatim>\<open>cleanupZombieTasks\<close>, with any timeouts at any times, a live Pending
  task is still live, still a member of the pending set and unchanged (in the state the
  calls end in, or in the one where a call stopped).
\<close>

theorem cleanup_keeps_pending:
  assumes "run (emptyDatabase h) before = Completed w"
    and "live w task" and "getState (m_status (heap w task)) = Pending"
    and "\<forall>c \<in> set calls. isCleanup c"
    and "run w calls = Completed w' \<or> run w calls = Undefined w'"
  shows "(\<forall>T now. cleanupIfZombieTask task T now w = (False, w)) \<and>
         live w' task \<and> task \<in> set (m_pendingTasks w') \<and> heap w' task = heap w task"
proof -
  have n: "runStatus (m_status (heap w task)) = None"
    using assms(3) by (simp add: getState_Pending_iff)
  have "cleanupIfZombieTask task T now w = (False, w)" for T now
    by (simp add: cleanupIfZombieTask_alt isZombie_pending [OF n])
  with cleanups_keep_pending [OF reachable_inv [OF assms(1)] assms(2) n assms(4,5)]
  show ?thesis by simp
qed

theorem cleanup_keeps_pending_witness:
  "run (emptyDatabase blankHeap) dispatchOne = Completed dispatchOne_final \<and>
   live dispatchOne_final 2 \<and> getState (m_status (heap dispatchOne_final 2)) = Pending \<and>
   createTime (m_status (heap dispatchOne_final 2)) = 3 \<and>
   list_all isCleanup reapAgain \<and>
   run dispatchOne_final reapAgain = Undefined finishedOne \<and>
   cleanupIfZombieTask 2 0 1000000 dispatchOne_final = (False, dispatchOne_final) \<and>
   live finishedOne 2 \<and> 2 \<in> set (m_pendingTasks finishedOne)"
proof -
  have a: "live dispatchOne_final 2" "getState (m_status (heap dispatchOne_final 2)) = Pending"
    "createTime (m_status (heap dispatchOne_final 2)) = 3"
    by (simp_all add: dispatchOne_final_def live_def getState_def)
  have c: "\<forall>c \<in> set reapAgain. isCleanup c" by (simp add: reapAgain_def)
  have b: "run dispatchOne_final reapAgain = Undefined finishedOne"
    by (simp add: reapAgain_def cleanupZombieTasks_def cleanupIfZombieTask_def finishedOne_def
        markTaskFinished_def dispatchOne_final_def)
  from cleanup_keeps_pending [OF dispatchOne_run a(1,2) c disjI2, OF b] a b c dispatchOne_run
  show ?thesis by (simp add: list_all_iff)
qed

lemma cleanupIfZombieTask_reaps:
  assumes "db_inv w" "live w task" "isZombie T now (heap w task)"
  shows "fst (cleanupIfZombieTask task T now w) \<and>
         \<not> live (snd (cleanupIfZombieTask task T now w)) task \<and>
         (\<forall>other. other \<noteq> task \<longrightarrow>
            live (snd (cleanupIfZombieTask task T now w)) other = live w other) \<and>
         numFinished (m_stats (snd (cleanupIfZombieTask task T now w))) = numFinished (m_stats w) + 1"
  using assms
  by (auto simp: cleanupIfZombieTask_alt markTaskFinished_live)
     (simp add: markTaskFinished_def split: option.splits)

subsection \<open>The reaper and its iterator\<close>

text \<open>
  Claim C3 (zombie reaping): the code at the failing input. One task was dispatched at time 1
  and has sent no heartbeat; at time 100, with a timeout of 60 seconds,
  \<^verbatim>\<open>cleanupZombieTasks\<close> finishes the task, which erases the map entry the loop's iterator
  stands on, and then increments that iterator: the call does not return in a defined way.
\<close>

theorem cleanupZombieTasks_invalidates_iterator:
  "run (emptyDatabase blankHeap) dispatchOne = Completed dispatchOne_final \<and>
   isZombie 60 100 (heap dispatchOne_final 1) \<and>
   cleanupZombieTasks 60 100 dispatchOne_final = IteratorInvalid finishedOne \<and>
   exec (CleanupZombieTasks 60 100) dispatchOne_final = Undefined finishedOne"
proof -
  have "cleanupZombieTasks 60 100 dispatchOne_final = IteratorInvalid finishedOne"
    by (simp add: cleanupZombieTasks_def cleanupIfZombieTask_def finishedOne_def
        markTaskFinished_def dispatchOne_final_def)
  moreover have "isZombie 60 100 (heap dispatchOne_final 1)"
    by (simp add: isZombie_def dispatchOne_final_def)
  ultimately show ?thesis using dispatchOne_run by simp
qed

lemma cleanupZombieTasks_Returned_iff:
  assumes "db_inv w"
  shows "cleanupZombieTasks T now w = Returned w' \<longleftrightarrow>
         w' = w \<and> (\<forall>task. live w task \<longrightarrow> \<not> isZombie T now (heap w task))"
proof (cases "find (\<lambda>e. isZombie T now (heap w (snd e))) (m_allTasksByID w)")
  case None
  then have "\<forall>task. live w task \<longrightarrow> \<not> isZombie T now (heap w task)"
    by (auto simp: find_None_iff live_def)
  with None show ?thesis by (auto simp: cleanupZombieTasks_char [OF assms])
next
  case (Some e)
  then have "e \<in> set (m_allTasksByID w)" "isZombie T now (heap w (snd e))"
    by (auto simp: find_Some_iff)
  then have "live w (snd e) \<and> isZombie T now (heap w (snd e))" by (auto simp: live_def)
  with Some show ?thesis by (auto simp: cleanupZombieTasks_char [OF assms])
qed

lemma concat_map_if: "concat (map (\<lambda>p. if P p then [f p] else []) xs) = map f (filter P xs)"
  by (induction xs) auto

lemma getTasksByStates_filter:
  "getTasksByStates states w =
     map snd (filter (\<lambda>e. getState (m_status (heap w (snd e))) \<in> states) (m_allTasksByID w))"
  by (simp add: getTasksByStates_def split_def concat_map_if)

lemma set_getTasksByStates:
  "set (getTasksByStates states w) =
     {task. live w task \<and> getState (m_status (heap w task)) \<in> states}"
  by (auto simp: getTasksByStates_filter live_def)

lemma db_inv_distinct_ptrs: "db_inv w \<Longrightarrow> distinct (map snd (m_allTasksByID w))"
proof -
  assume inv: "db_inv w"
  have "inj_on snd (set (m_allTasksByID w))"
  proof (rule inj_onI)
    fix a b assume ab: "a \<in> set (m_allTasksByID w)" "b \<in> set (m_allTasksByID w)" "snd a = snd b"
    then have "fst a = fst b" using inv by (metis db_inv_def)
    with ab(3) show "a = b" by (simp add: prod_eq_iff)
  qed
  moreover have "distinct (m_allTasksByID w)"
    using inv by (auto simp: db_inv_def dest: distinct_map [THEN iffD1])
  ultimately show ?thesis by (simp add: distinct_map)
qed

lemma distinct_getTasksByStates: "db_inv w \<Longrightarrow> distinct (getTasksByStates states w)"
  unfolding getTasksByStates_filter
  by (rule distinct_map_filter) (rule db_inv_distinct_ptrs)

subsection \<open>Listing tasks by state\<close>

text \<open>
  Claim C5 (\<^verbatim>\<open>getTasksByStates\<close>), as amended. \<^verbatim>\<open>TaskDatabase::getTasksByStates\<close> has no
  threshold and no failure result: for every set of states and every number of live tasks it
  returns exactly the live tasks whose derived state is in the set, each once.
\<close>

theorem getTasksByStates_exact:
  assumes "run (emptyDatabase h) calls = Completed w"
  shows "set (getTasksByStates states w) =
           {task. live w task \<and> getState (m_status (heap w task)) \<in> states} \<and>
         distinct (getTasksByStates states w)"
proof -
  have inv: "db_inv w" using reachable_inv [OF assms] ..
  then show ?thesis
    by (simp add: set_getTasksByStates distinct_getTasksByStates)
qed

theorem getTasksByStates_exact_witness:
  "run (emptyDatabase blankHeap) dispatchOne = Completed dispatchOne_final \<and>
   getTasksByStates {Pending} dispatchOne_final = [2] \<and>
   getTasksByStates {Running, Canceling} dispatchOne_final = [1] \<and>
   set (getTasksByStates {Pending, Running, Canceling} dispatchOne_final) =
     {task. live dispatchOne_final task \<and>
            getState (m_status (heap dispatchOne_final task)) \<in> {Pending, Running, Canceling}} \<and>
   distinct (getTasksByStates {Pending, Running, Canceling} dispatchOne_final)"
  using getTasksByStates_exact [OF dispatchOne_run, of "{Pending, Running, Canceling}"] dispatchOne_run
  by (simp add: getTasksByStates_def dispatchOne_final_def getState_def)

text \<open>
  \<^verbatim>\<open>getTotalTaskCount\<close> is the number of live tasks cut to 32 bits, and that number itself
  while it is below \<open>2^31\<close>.
\<close>

lemma getTotalTaskCount_live:
  assumes "db_inv w"
  shows "getTotalTaskCount w = of_nat (card {task. live w task})"
    and "card {task. live w task} < 2 ^ 31 \<Longrightarrow>
         sint (getTotalTaskCount w) = int (card {task. live w task})"
proof -
  have "card {task. live w task} = card (set (map snd (m_allTasksByID w)))"
    by (simp add: live_def)
  also have "\<dots> = length (m_allTasksByID w)"
    using distinct_card [OF db_inv_distinct_ptrs [OF assms]] by simp
  finally have c: "card {task. live w task} = length (m_allTasksByID w)" .
  show "getTotalTaskCount w = of_nat (card {task. live w task})"
    by (simp add: c getTotalTaskCount_def)
  show "sint (getTotalTaskCount w) = int (card {task. live w task})"
    if "card {task. live w task} < 2 ^ 31"
    using that by (simp add: c getTotalTaskCount_def sint_of_nat_32)
qed

lemma crowd_getTasksByStates: "getTasksByStates {Pending} (crowd n) = [0..<n]"
  by (simp add: getTasksByStates_filter crowd_def getState_def comp_def map_idI)

lemma insort_key_snoc: "\<forall>e \<in> set xs. f e < f a \<Longrightarrow> insort_key f a xs = xs @ [a]"
  by (induction xs) auto

lemma crowd_Suc:
  assumes "n < 2 ^ 64"
  shows "exec (CreateTask echoInfo [of_nat n] n 0) (crowd n) = Completed (crowd (Suc n))"
proof -
  have lt: "(of_nat p :: 64 word) < of_nat n" if "p < n" for p
    using that assms by (simp add: word_of_nat_less_iff take_bit_nat_eq_self)
  have keys: "\<forall>e \<in> set (m_allTasksByID (crowd n)). fst e < (of_nat n :: 64 word)"
    by (auto simp: crowd_def lt)
  then have fresh: "map_of (m_allTasksByID (crowd n)) (of_nat n) = None"
    by (force simp: map_of_eq_None_iff)
  have nl: "\<not> live (crowd n) n" by (auto simp: live_def crowd_def)
  have g: "getUnusedTaskID [of_nat n] (crowd n) = (Found (of_nat n), 0)"
    using fresh by (simp add: getUnusedTaskID_def getUnusedTaskID_loop.simps getTaskByID_def)
  have a: "stdmap_assign (of_nat n) n (m_allTasksByID (crowd n)) = m_allTasksByID (crowd (Suc n))"
    using fresh insort_key_snoc [of "m_allTasksByID (crowd n)" fst "(of_nat n, n)"] keys
    by (simp add: stdmap_assign_def) (simp add: crowd_def)
  have p: "stdset_insert n (m_pendingTasks (crowd n)) = m_pendingTasks (crowd (Suc n))"
    using insort_key_snoc [of "[0..<n]" "\<lambda>x. x" n] by (simp add: stdset_insert_def crowd_def)
  have h: "(heap (crowd n))(n := Task_new (of_nat n) echoInfo 0) = heap (crowd (Suc n))"
    by (auto simp: crowd_def Task_new_def echoInfo_def)
  have "createTask echoInfo [of_nat n] n 0 (crowd n) = Found (n, crowd (Suc n))"
    unfolding createTask_def g by (simp add: a p h) (simp add: crowd_def)
  with nl show ?thesis by simp
qed

lemma crowd_reachable:
  "n \<le> 2 ^ 64 \<Longrightarrow> run (emptyDatabase (heap (crowd 0))) (crowdCalls n) = Completed (crowd n)"
proof (induction n)
  case 0
  then show ?case by (simp add: crowdCalls_def emptyDatabase_def crowd_def TaskStats_init_def)
next
  case (Suc n)
  then have "run (emptyDatabase (heap (crowd 0))) (crowdCalls n) = Completed (crowd n)" by simp
  moreover have "crowdCalls (Suc n) = crowdCalls n @ [CreateTask echoInfo [of_nat n] n 0]"
    by (simp add: crowdCalls_def)
  ultimately show ?case using crowd_Suc [of n] Suc.prems by (simp add: run_append)
qed

theorem getTasksByStates_large_counterexample:
  "run (emptyDatabase (heap (crowd 0))) (crowdCalls 100000) = Completed (crowd 100000) \<and>
   sint (getTotalTaskCount (crowd 100000)) = 100000 \<and>
   getTasksByStates {Pending} (crowd 100000) = [0..<100000] \<and>
   length (getTasksByStates {Pending} (crowd 100000)) = 100000"
  using crowd_reachable [of 100000]
  by (simp add: crowd_getTasksByStates) (simp add: getTotalTaskCount_def crowd_def)

lemma getUnusedTaskID_not_Failed: "fst (getUnusedTaskID rnd w) \<noteq> Failed"
  by (simp add: getUnusedTaskID_def getUnusedTaskID_loop_not_Failed split: list.splits)

lemma getUnusedTaskID_loop_quiet:
  "getTaskByID x w \<noteq> None \<Longrightarrow> c + int k \<le> 10 \<Longrightarrow>
   getUnusedTaskID_loop w x c n (replicate k x @ rest) = getUnusedTaskID_loop w x (c + int k) n rest"
proof (induction k arbitrary: c)
  case 0
  then show ?case by simp
next
  case (Suc k)
  have "getUnusedTaskID_loop w x c n (replicate (Suc k) x @ rest)
      = getUnusedTaskID_loop w x (c + 1) n (replicate k x @ rest)"
    using Suc.prems by (subst getUnusedTaskID_loop.simps) simp
  also have "\<dots> = getUnusedTaskID_loop w x (c + 1 + int k) n rest"
    using Suc.prems by (intro Suc.IH) simp_all
  finally show ?case by (simp add: add.assoc)
qed

lemma getUnusedTaskID_loop_warning:
  "getTaskByID x w \<noteq> None \<Longrightarrow> 10 \<le> c \<Longrightarrow>
   getUnusedTaskID_loop w x c n (replicate k x @ rest) =
     getUnusedTaskID_loop w x (c + int k) (n + k) rest"
proof (induction k arbitrary: c n)
  case 0
  then show ?case by simp
next
  case (Suc k)
  have "getUnusedTaskID_loop w x c n (replicate (Suc k) x @ rest)
      = getUnusedTaskID_loop w x (c + 1) (n + 1) (replicate k x @ rest)"
    using Suc.prems by (subst getUnusedTaskID_loop.simps) simp
  also have "\<dots> = getUnusedTaskID_loop w x (c + 1 + int k) (n + 1 + k) rest"
    using Suc.prems by (intro Suc.IH) simp_all
  finally show ?case by (simp add: add.assoc)
qed

subsection \<open>ID allocation never gives up\<close>

text \<open>
  Claim C4 (ID allocation): the code at the failing input. The IDs 5 and 9 are in use and the
  generator yields 5 a thousand and two times, then 7. After 1002 collisions
  \<^verbatim>\<open>getUnusedTaskID\<close> has not called \<^verbatim>\<open>fail\<close>: it has printed a warning at each collision
  from the eleventh on and returns 7. The branch \<^verbatim>\<open>else if (sanityCount > 1000)\<close> is never
  taken, because \<^verbatim>\<open>sanityCount > 10\<close> holds before it; no input makes the function give up.
\<close>

theorem getUnusedTaskID_never_gives_up:
  "getTaskByID 5 dispatchOne_final = Some 1 \<and>
   getUnusedTaskID (replicate 1002 5 @ [7]) dispatchOne_final = (Found 7, 992) \<and>
   (\<forall>rnd w. fst (getUnusedTaskID rnd w) \<noteq> Failed)"
proof -
  have used: "getTaskByID 5 dispatchOne_final = Some 1"
    by (simp add: getTaskByID_def dispatchOne_final_def)
  then have u: "getTaskByID 5 dispatchOne_final \<noteq> None" by simp
  have free: "getTaskByID 7 dispatchOne_final = None"
    by (simp add: getTaskByID_def dispatchOne_final_def)
  have split: "replicate 1002 (5 :: TaskID) @ [7] = 5 # (replicate 10 5 @ (replicate 991 5 @ [7]))"
    by (simp flip: replicate_add replicate_Suc replicate_append_same)
  have "getUnusedTaskID (replicate 1002 5 @ [7]) dispatchOne_final
      = getUnusedTaskID_loop dispatchOne_final 5 0 0 (replicate 10 5 @ (replicate 991 5 @ [7]))"
    unfolding split by (simp add: getUnusedTaskID_def)
  also have "\<dots> = getUnusedTaskID_loop dispatchOne_final 5 10 0 (replicate 991 5 @ [7])"
    using getUnusedTaskID_loop_quiet [OF u, of 0 10 0] by simp
  also have "\<dots> = getUnusedTaskID_loop dispatchOne_final 5 1001 991 [7]"
    using getUnusedTaskID_loop_warning [OF u, of 10 0 991] by simp
  also have "\<dots> = getUnusedTaskID_loop dispatchOne_final 7 1002 992 []"
    using u by (subst getUnusedTaskID_loop.simps) simp
  also have "\<dots> = (Found 7, 992)"
    using free by (subst getUnusedTaskID_loop.simps) simp
  finally show ?thesis using used getUnusedTaskID_not_Failed by simp
qed

lemma getUnusedTaskID_loop_collisions:
  "\<forall>r \<in> set (x # rnd). getTaskByID r w \<noteq> None \<Longrightarrow>
   fst (getUnusedTaskID_loop w x c n rnd) = OutOfSamples"
proof (induction rnd arbitrary: x c n)
  case Nil
  then show ?case by (subst getUnusedTaskID_loop.simps) simp
next
  case (Cons r rnd)
  then show ?case by (subst getUnusedTaskID_loop.simps) simp
qed

lemma getUnusedTaskID_loop_returns:
  "\<exists>r \<in> set (x # rnd). getTaskByID r w = None \<Longrightarrow>
   \<exists>ident n'. getUnusedTaskID_loop w x c n rnd = (Found ident, n') \<and> ident \<in> set (x # rnd)
      \<and> getTaskByID ident w = None"
proof (induction rnd arbitrary: x c n)
  case Nil
  then show ?case by (subst getUnusedTaskID_loop.simps) simp
next
  case (Cons r rnd)
  show ?case
  proof (cases "getTaskByID x w = None")
    case True
    then show ?thesis by (subst getUnusedTaskID_loop.simps) simp
  next
    case False
    with Cons.prems have ex: "\<exists>r' \<in> set (r # rnd). getTaskByID r' w = None" by auto
    have step: "getUnusedTaskID_loop w x c n (r # rnd) =
        getUnusedTaskID_loop w r (c + 1) (if 10 < c + 1 then n + 1 else n) rnd"
      using False by (subst getUnusedTaskID_loop.simps) simp
    from Cons.IH [OF ex, of "c + 1" "if 10 < c + 1 then n + 1 else n"]
    obtain ident n' where
      "getUnusedTaskID_loop w r (c + 1) (if 10 < c + 1 then n + 1 else n) rnd = (Found ident, n')"
      "ident \<in> set (r # rnd)" "getTaskByID ident w = None"
      by blast
    then show ?thesis unfolding step by auto
  qed
qed

lemma pendingPair_run:
  "run (emptyDatabase blankHeap) (pendingPairCalls tagsA tagsB) = Completed (pendingPair tagsA tagsB)"
  by (simp add: pendingPairCalls_def pendingPair_def emptyDatabase_def createTask_def
      getUnusedTaskID_def getUnusedTaskID_loop.simps getTaskByID_def stdmap_assign_def
      stdset_insert_def live_def Task_new_def wantInfo_def TaskStats_init_def blankHeap_def)

lemma f32_one: "f32_div (f32_of_nat 1) (f32_of_nat 1) = 2 ^ 149"
  by (simp add: f32_div_def f32_of_nat_def f32_round_def Let_def)

lemma f32_half: "f32_div (f32_of_nat 1) (f32_of_nat 2) = 2 ^ 148"
  by (simp add: f32_div_def f32_of_nat_def f32_round_def Let_def)

lemma f32_1023_1024: "f32_div (f32_of_nat 1023) (f32_of_nat 1024) = 1023 * 2 ^ 139"
  by (simp add: f32_div_def f32_of_nat_def f32_round_def Let_def)

lemma matchCount_nearlyAll: "matchCount {''X''} nearlyAll = 1023" "length nearlyAll = 1024"
  by (simp_all add: nearlyAll_def matchCount_filter)

lemma eligible_iff: "eligible h R t \<longleftrightarrow> set (requiredResources (m_schedule (h t))) \<subseteq> R"
  by (simp add: eligible_def matchReq_iff)

lemma takeTaskToRun_not_again:
  assumes "t \<notin> set (m_pendingTasks w)"
  shows "fst (takeTaskToRun R now now2 w) \<noteq> Some t"
proof
  assume "fst (takeTaskToRun R now now2 w) = Some t"
  then have "t \<in> set (m_pendingTasks w)"
    using takeTaskToRun_Some take_loop_mem by blast
  with assms show False ..
qed

subsection \<open>Dispatch\<close>

text \<open>
  Claim C2 (matching and dispatch), as amended. In a database reached from the empty one,
  \<^verbatim>\<open>takeTaskToRun\<close> returns nothing iff no pending task has all its required resources among
  the worker's. Otherwise it returns a pending task \<open>t\<close> that has them, and with the pending
  set in iteration order \<open>pre @ t # post\<close>: every eligible task before \<open>t\<close> has a strictly
  smaller score, below \<^verbatim>\<open>0.999f\<close>; and either the score of \<open>t\<close> reached \<^verbatim>\<open>0.999f\<close> (the search
  stopped at \<open>t\<close>, and the tasks after it were not looked at) or no eligible task after \<open>t\<close>
  has a greater score. The scores are the single-precision quotients the code compares. On
  return \<open>t\<close> is out of the pending set, still live, and Running (\<open>runStatus\<close> present,
  \<open>wasCanceled\<close> false); no later call returns a task that is not pending, so the next call
  cannot return \<open>t\<close>.
\<close>

theorem takeTaskToRun_dispatch:
  assumes "run (emptyDatabase h) calls = Completed w"
    and "w' = snd (takeTaskToRun R now now2 w)"
  shows "(fst (takeTaskToRun R now now2 w) = None \<longleftrightarrow>
            (\<forall>u \<in> set (m_pendingTasks w). \<not> set (requiredResources (m_schedule (heap w u))) \<subseteq> R)) \<and>
         (\<forall>t. fst (takeTaskToRun R now now2 w) = Some t \<longrightarrow>
            (\<exists>pre post. m_pendingTasks w = pre @ t # post \<and>
               set (requiredResources (m_schedule (heap w t))) \<subseteq> R \<and>
               (\<forall>u \<in> set pre. set (requiredResources (m_schedule (heap w u))) \<subseteq> R \<longrightarrow>
                  taskScore (heap w) R u < taskScore (heap w) R t \<and>
                  taskScore (heap w) R u < f32_0_999) \<and>
               (f32_0_999 \<le> taskScore (heap w) R t \<or>
                (\<forall>u \<in> set post. set (requiredResources (m_schedule (heap w u))) \<subseteq> R \<longrightarrow>
                   taskScore (heap w) R u \<le> taskScore (heap w) R t))) \<and>
            t \<notin> set (m_pendingTasks w') \<and> live w' t \<and>
            (\<exists>rs. runStatus (m_status (heap w' t)) = Some rs \<and> \<not> wasCanceled rs) \<and>
            getState (m_status (heap w' t)) = Running \<and>
            (\<forall>R' t1 t2. fst (takeTaskToRun R' t1 t2 w') \<noteq> Some t))"
proof (intro conjI allI impI)
  show "fst (takeTaskToRun R now now2 w) = None \<longleftrightarrow>
          (\<forall>u \<in> set (m_pendingTasks w). \<not> set (requiredResources (m_schedule (heap w u))) \<subseteq> R)"
    using take_loop_None_iff [of "heap w" R "m_pendingTasks w"]
    by (auto simp: takeTaskToRun_def eligible_iff split: option.splits)
next
  fix t assume s: "fst (takeTaskToRun R now now2 w) = Some t"
  note ts = takeTaskToRun_Some [OF s]
  have inv: "db_inv w" using reachable_inv [OF assms(1)] ..
  have mem: "t \<in> set (m_pendingTasks w)" using ts take_loop_mem by blast
  then have tl: "live w t" and tn: "runStatus (m_status (heap w t)) = None"
    using inv by (auto simp: db_inv_def)
  show "\<exists>pre post. m_pendingTasks w = pre @ t # post \<and>
               set (requiredResources (m_schedule (heap w t))) \<subseteq> R \<and>
               (\<forall>u \<in> set pre. set (requiredResources (m_schedule (heap w u))) \<subseteq> R \<longrightarrow>
                  taskScore (heap w) R u < taskScore (heap w) R t \<and>
                  taskScore (heap w) R u < f32_0_999) \<and>
               (f32_0_999 \<le> taskScore (heap w) R t \<or>
                (\<forall>u \<in> set post. set (requiredResources (m_schedule (heap w u))) \<subseteq> R \<longrightarrow>
                   taskScore (heap w) R u \<le> taskScore (heap w) R t))"
    using take_loop_Some [of "heap w" R "m_pendingTasks w" t] ts by (simp add: eligible_iff)
  show out: "t \<notin> set (m_pendingTasks w')"
    by (simp add: assms(2) ts stdset_erase_filter)
  show "live w' t" using tl by (simp add: assms(2) ts live_def)
  have rs: "runStatus (m_status (heap w' t)) =
      Some \<lparr>wasCanceled = False, startTime = now, heartbeatTime = now2\<rparr>"
    using tn by (simp add: assms(2) ts markStarted_def)
  then show "\<exists>rs. runStatus (m_status (heap w' t)) = Some rs \<and> \<not> wasCanceled rs" by simp
  show "getState (m_status (heap w' t)) = Running" by (simp add: getState_def rs)
  show "fst (takeTaskToRun R' t1 t2 w') \<noteq> Some t" for R' t1 t2
    by (rule takeTaskToRun_not_again [OF out])
qed

lemma taskScore_pendingPair:
  "taskScore (heap (pendingPair tagsA tagsB)) R (Suc 0) = score R (schedule (wantInfo tagsA))"
  "taskScore (heap (pendingPair tagsA tagsB)) R 2 = score R (schedule (wantInfo tagsB))"
  "eligible (heap (pendingPair tagsA tagsB)) R (Suc 0)" "eligible (heap (pendingPair tagsA tagsB)) R 2"
  by (simp_all add: taskScore_def eligible_def pendingPair_def wantInfo_def)

lemma score_nearlyAll: "score {''X''} (schedule (wantInfo nearlyAll)) = 1023 * 2 ^ 139"
  by (simp add: score_def wantInfo_def matchCount_nearlyAll f32_1023_1024)

lemma score_X: "score {''X''} (schedule (wantInfo [''X''])) = 2 ^ 149"
  using f32_one by (simp add: score_def wantInfo_def)

lemma score_XY: "score {''X''} (schedule (wantInfo [''X'', ''Y''])) = 2 ^ 148"
  using f32_half by (simp add: score_def wantInfo_def numeral_2_eq_2)

lemma pendingPair_order: "m_pendingTasks (pendingPair tagsA tagsB) = [Suc 0, 2]"
  by (simp add: pendingPair_def)

lemma take_scenario4:
  "fst (takeTaskToRun {''X''} 5 6 (pendingPair [''X'', ''Y''] [''X''])) = Some 2"
  by (simp add: takeTaskToRun_def pendingPair_order loop_Cons taskScore_pendingPair score_X score_XY
      f32_minus_one_def f32_0_999_value)

lemma take_nearlyAll:
  "fst (takeTaskToRun {''X''} 5 6 (pendingPair nearlyAll [''X''])) = Some 1"
  by (simp add: takeTaskToRun_def pendingPair_order loop_Cons taskScore_pendingPair score_X
      score_nearlyAll f32_minus_one_def f32_0_999_value)

theorem takeTaskToRun_dispatch_witness:
  "run (emptyDatabase blankHeap) (pendingPairCalls [''X'', ''Y''] [''X'']) =
     Completed (pendingPair [''X'', ''Y''] [''X'']) \<and>
   fst (takeTaskToRun {''X''} 5 6 (pendingPair [''X'', ''Y''] [''X''])) = Some 2 \<and>
   taskScore (heap (pendingPair [''X'', ''Y''] [''X''])) {''X''} 1 = 2 ^ 148 \<and>
   taskScore (heap (pendingPair [''X'', ''Y''] [''X''])) {''X''} 2 = 2 ^ 149 \<and>
   2 \<notin> set (m_pendingTasks (snd (takeTaskToRun {''X''} 5 6 (pendingPair [''X'', ''Y''] [''X''])))) \<and>
   getState (m_status (heap (snd (takeTaskToRun {''X''} 5 6 (pendingPair [''X'', ''Y''] [''X'']))) 2)) =
     Running \<and>
   fst (takeTaskToRun {''X''} 7 7 (snd (takeTaskToRun {''X''} 5 6 (pendingPair [''X'', ''Y''] [''X''])))) \<noteq> Some 2 \<and>
   fst (takeTaskToRun {} 5 5 dispatchOne_final) = None"
proof -
  let ?w = "pendingPair [''X'', ''Y''] [''X'']"
  have sc: "taskScore (heap ?w) {''X''} 1 = 2 ^ 148" "taskScore (heap ?w) {''X''} 2 = 2 ^ 149"
    using taskScore_pendingPair(1,2) [of "[''X'', ''Y'']" "[''X'']" "{''X''}"]
    by (simp_all add: score_X score_XY)
  have none: "\<forall>u \<in> set (m_pendingTasks dispatchOne_final).
      \<not> set (requiredResources (m_schedule (heap dispatchOne_final u))) \<subseteq> {}"
    by (simp add: dispatchOne_final_def echoInfo_def)
  from takeTaskToRun_dispatch [where w = ?w and R = "{''X''}" and now = 5 and ?now2.0 = 6,
      OF pendingPair_run refl]
    takeTaskToRun_dispatch [where w = dispatchOne_final and R = "{}" and now = 5 and ?now2.0 = 5,
      OF dispatchOne_run refl]
    take_scenario4 pendingPair_run sc none
  show ?thesis by simp
qed

theorem takeTaskToRun_short_circuit_counterexample:
  "run (emptyDatabase blankHeap) (pendingPairCalls nearlyAll [''X'']) =
     Completed (pendingPair nearlyAll [''X'']) \<and>
   fst (takeTaskToRun {''X''} 5 6 (pendingPair nearlyAll [''X''])) = Some 1 \<and>
   2 \<in> set (m_pendingTasks (pendingPair nearlyAll [''X''])) \<and>
   set (requiredResources (m_schedule (heap (pendingPair nearlyAll [''X'']) 2))) \<subseteq> {''X''} \<and>
   taskScore (heap (pendingPair nearlyAll [''X''])) {''X''} 1 = 1023 * 2 ^ 139 \<and>
   taskScore (heap (pendingPair nearlyAll [''X''])) {''X''} 2 = 2 ^ 149 \<and>
   taskScore (heap (pendingPair nearlyAll [''X''])) {''X''} 1
     < taskScore (heap (pendingPair nearlyAll [''X''])) {''X''} 2"
proof -
  let ?w = "pendingPair nearlyAll [''X'']"
  have sc: "taskScore (heap ?w) {''X''} 1 = 1023 * 2 ^ 139" "taskScore (heap ?w) {''X''} 2 = 2 ^ 149"
    using taskScore_pendingPair(1,2) [of nearlyAll "[''X'']" "{''X''}"]
    by (simp_all add: score_X score_nearlyAll)
  have "2 \<in> set (m_pendingTasks ?w)"
    "set (requiredResources (m_schedule (heap ?w 2))) \<subseteq> {''X''}"
    by (simp_all add: pendingPair_def wantInfo_def)
  with take_nearlyAll pendingPair_run [of nearlyAll "[''X'']"] sc show ?thesis by simp
qed

lemma length_le_bytes [simp]: "length (le_bytes width v) = width"
  by (induction width arbitrary: v) auto

lemma le_value_le_bytes: "v < 256 ^ width \<Longrightarrow> le_value (le_bytes width v) = v"
proof (induction width arbitrary: v)
  case 0
  then show ?case by simp
next
  case (Suc width)
  then have "v div 256 < 256 ^ width" by (simp add: less_mult_imp_div_less mult.commute)
  then have "le_value (le_bytes width (v div 256)) = v div 256" by (rule Suc.IH)
  then show ?case by (simp add: unat_of_nat)
qed

lemma read_uint_write_uint:
  "v < 256 ^ width \<Longrightarrow> read_uint width (write_uint width v [] @ rest) = Some (v, rest)"
  by (simp add: read_uint_def write_uint_def le_value_le_bytes)

lemma write_uint_append: "write_uint width v writer = writer @ write_uint width v []"
  by (simp add: write_uint_def)

lemma write_bool_append: "write_bool b writer = writer @ write_bool b []"
  by (simp add: write_bool_def)

lemma write_time_append: "write_time t writer = writer @ write_time t []"
  by (simp add: write_time_def write_uint_def)

lemma write_string_append: "write_string s writer = writer @ write_string s []"
  by (simp add: write_string_def write_uint_def)

lemma write_resources_append: "write_resources rs writer = writer @ write_resources rs []"
proof (induction rs arbitrary: writer)
  case Nil
  then show ?case by simp
next
  case (Cons r rs)
  have "write_resources (r # rs) writer = write_string r writer @ write_resources rs []"
    using Cons [of "write_string r writer"] by simp
  also have "\<dots> = writer @ write_string r [] @ write_resources rs []"
    using write_string_append [of r writer] by simp
  also have "write_string r [] @ write_resources rs [] = write_resources (r # rs) []"
    using Cons [of "write_string r []"] by simp
  finally show ?case .
qed

lemma read_bool_write_bool: "read_bool (write_bool b [] @ rest) = Some (b, rest)"
  by (simp add: read_bool_def write_bool_def)

lemma read_time_write_time:
  assumes "time_fits t"
  shows "read_time (write_time t [] @ rest) = Some (t, rest)"
proof -
  define v where "v = nat (t mod 2 ^ 64)"
  have lt: "v < 256 ^ 8" by (simp add: v_def nat_less_iff)
  have r: "read_uint 8 (write_time t [] @ rest) = Some (v, rest)"
    unfolding write_time_def v_def [symmetric] by (rule read_uint_write_uint [OF lt])
  have d: "(if v < 2 ^ 63 then int v else int v - 2 ^ 64) = t"
  proof (cases "0 \<le> t")
    case True
    then have "t mod 2 ^ 64 = t" using assms by (simp add: time_fits_def)
    then show ?thesis using True assms by (simp add: v_def time_fits_def nat_less_iff)
  next
    case False
    have "t mod 2 ^ 64 = (t + 2 ^ 64) mod 2 ^ 64" by simp
    also have "\<dots> = t + 2 ^ 64"
      using False assms by (intro mod_pos_pos_trivial) (simp_all add: time_fits_def)
    finally have "t mod 2 ^ 64 = t + 2 ^ 64" .
    then show ?thesis using False assms by (simp add: v_def time_fits_def nat_less_iff)
  qed
  show ?thesis unfolding read_time_def r by (simp only: option.case prod.case d)
qed

lemma bytes_of_string_inverse:
  "map (\<lambda>b :: byte. char_of (unat b)) (map (\<lambda>c. of_nat (of_char c)) s) = s"
  by (induction s) (simp_all add: unat_of_nat)

lemma read_string_write_string:
  assumes "string_fits s"
  shows "read_string (write_string s [] @ rest) = Some (s, rest)"
proof -
  have lt: "length s < 256 ^ 4" using assms by (simp add: string_fits_def)
  have w: "write_string s [] @ rest = write_uint 4 (length s) [] @ (map (\<lambda>c. of_nat (of_char c)) s @ rest)"
    by (simp add: write_string_def)
  show ?thesis
    unfolding w read_string_def read_uint_write_uint [OF lt]
    by (simp add: bytes_of_string_inverse del: map_map)
qed

lemma read_resources_write_resources:
  "list_all string_fits rs \<Longrightarrow>
   read_resources (length rs) (write_resources rs [] @ rest) = Some (rs, rest)"
proof (induction rs)
  case Nil
  then show ?case by simp
next
  case (Cons r rs)
  have w: "write_resources (r # rs) [] @ rest = write_string r [] @ (write_resources rs [] @ rest)"
    using write_resources_append [of rs "write_string r []"] by simp
  show ?case
    unfolding w using Cons by (simp add: read_string_write_string)
qed

lemma TaskSchedule_serialize_append:
  "TaskSchedule_serialize s writer =
     writer @ write_uint 8 (length (requiredResources s)) [] @ write_resources (requiredResources s) [] @
       write_uint 8 (length (optionalResources s)) [] @ write_resources (optionalResources s) []"
  unfolding TaskSchedule_serialize_def
  by (subst write_resources_append, subst write_uint_append, subst write_resources_append,
      subst write_uint_append) simp

lemma TaskSchedule_roundtrip:
  assumes "resources_fit (requiredResources s)" "resources_fit (optionalResources s)"
  shows "TaskSchedule_deserialize (TaskSchedule_serialize s [] @ rest) self =
     Some (self\<lparr>requiredResources := requiredResources s, optionalResources := optionalResources s\<rparr>, rest)"
proof -
  have l: "length (requiredResources s) < 256 ^ 8" "length (optionalResources s) < 256 ^ 8"
    and f: "list_all string_fits (requiredResources s)" "list_all string_fits (optionalResources s)"
    using assms by (simp_all add: resources_fit_def)
  show ?thesis
    unfolding TaskSchedule_deserialize_def TaskSchedule_serialize_append
    by (simp add: read_uint_write_uint [OF l(1)] read_uint_write_uint [OF l(2)]
        read_resources_write_resources [OF f(1)] read_resources_write_resources [OF f(2)])
qed

lemma TaskRunStatus_roundtrip:
  assumes "time_fits (startTime rs)" "time_fits (heartbeatTime rs)"
  shows "TaskRunStatus_deserialize (TaskRunStatus_serialize rs [] @ rest) self = Some (rs, rest)"
proof -
  have w: "TaskRunStatus_serialize rs [] @ rest =
      write_bool (wasCanceled rs) [] @ (write_time (startTime rs) [] @ (write_time (heartbeatTime rs) [] @ rest))"
    by (simp add: TaskRunStatus_serialize_def write_time_def write_bool_def write_uint_def)
  show ?thesis
    unfolding w TaskRunStatus_deserialize_def
    by (simp add: read_bool_write_bool read_time_write_time [OF assms(1)]
        read_time_write_time [OF assms(2)])
qed

lemma TaskStatus_roundtrip:
  assumes "status_fits st"
  shows "TaskStatus_deserialize (TaskStatus_serialize st [] @ rest) runStatusVal self = Some (st, rest)"
proof (cases "runStatus st")
  case None
  have w: "TaskStatus_serialize st [] @ rest = write_time (createTime st) [] @ (write_bool False [] @ rest)"
    using None by (simp add: TaskStatus_serialize_def write_time_def write_bool_def write_uint_def)
  have "time_fits (createTime st)" using assms by (simp add: status_fits_def)
  then show ?thesis
    unfolding w TaskStatus_deserialize_def using None
    by (simp add: read_time_write_time read_bool_write_bool)
next
  case (Some rs)
  have w: "TaskStatus_serialize st [] @ rest =
      write_time (createTime st) [] @ (write_bool True [] @ (TaskRunStatus_serialize rs [] @ rest))"
    using Some
    by (simp add: TaskStatus_serialize_def TaskRunStatus_serialize_def write_time_def
        write_bool_def write_uint_def)
  have f: "time_fits (createTime st)" "time_fits (startTime rs)" "time_fits (heartbeatTime rs)"
    using assms Some by (simp_all add: status_fits_def)
  show ?thesis
    unfolding w TaskStatus_deserialize_def using Some
    by (simp add: read_time_write_time [OF f(1)] read_bool_write_bool
        TaskRunStatus_roundtrip [OF f(2,3)])
qed

lemma TaskCreateInfo_roundtrip:
  assumes "string_fits (command info)" "resources_fit (requiredResources (schedule info))"
    "resources_fit (optionalResources (schedule info))"
  shows "TaskCreateInfo_deserialize (TaskCreateInfo_serialize info [] @ rest) self =
     Some (self\<lparr>command := command info,
               schedule := (schedule self)\<lparr>requiredResources := requiredResources (schedule info),
                                            optionalResources := optionalResources (schedule info)\<rparr>\<rparr>, rest)"
proof -
  have w: "TaskCreateInfo_serialize info [] @ rest =
      write_string (command info) [] @ (TaskSchedule_serialize (schedule info) [] @ rest)"
    by (simp add: TaskCreateInfo_serialize_def TaskSchedule_serialize_append)
  show ?thesis
    unfolding w TaskCreateInfo_deserialize_def
    by (simp add: read_string_write_string [OF assms(1)] TaskSchedule_roundtrip [OF assms(2,3)])
qed

subsection \<open>Serialization round trip\<close>

text \<open>
  Claim C8 (serialization round trip). For every value the wire format can carry (strings
  shorter than \<open>2^32\<close> bytes, lists shorter than \<open>2^64\<close>, times in the 64-bit range),
  deserializing the bytes written by \<^verbatim>\<open>serialize\<close>, whatever follows them in the stream,
  succeeds, consumes exactly those bytes and reconstructs the value: the two resource lists of
  a \<^verbatim>\<open>TaskSchedule\<close>, the whole \<^verbatim>\<open>TaskStatus\<close> (\<open>createTime\<close> and the optional \<open>runStatus\<close> with
  \<open>wasCanceled\<close>, \<open>startTime\<close>, \<open>heartbeatTime\<close>), and the command and the two lists of a
  \<^verbatim>\<open>TaskCreateInfo\<close>.
\<close>

theorem serialization_roundtrip:
  "(resources_fit (requiredResources s) \<and> resources_fit (optionalResources s) \<longrightarrow>
      (\<exists>s'. TaskSchedule_deserialize (TaskSchedule_serialize s [] @ rest) self = Some (s', rest) \<and>
            requiredResources s' = requiredResources s \<and>
            optionalResources s' = optionalResources s)) \<and>
   (status_fits st \<longrightarrow>
      TaskStatus_deserialize (TaskStatus_serialize st [] @ rest) runStatusVal self_st = Some (st, rest)) \<and>
   (string_fits (command info) \<and> resources_fit (requiredResources (schedule info)) \<and>
    resources_fit (optionalResources (schedule info)) \<longrightarrow>
      (\<exists>info'. TaskCreateInfo_deserialize (TaskCreateInfo_serialize info [] @ rest) self_info =
               Some (info', rest) \<and>
            command info' = command info \<and>
            requiredResources (schedule info') = requiredResources (schedule info) \<and>
            optionalResources (schedule info') = optionalResources (schedule info)))"
  by (simp add: TaskSchedule_roundtrip TaskStatus_roundtrip TaskCreateInfo_roundtrip)

lemma le_bytes_numeral [simp]:
  "le_bytes (numeral k) v = of_nat (v mod 256) # le_bytes (pred_numeral k) (v div 256)"
  by (simp only: numeral_eq_Suc [of k] le_bytes.simps)

lemma canceledStatus_bytes:
  "TaskStatus_serialize canceledStatus [] =
     [255, 255, 255, 255, 255, 255, 255, 255, 1, 1, 1, 0, 0, 0, 0, 0, 0, 0, 7, 0, 0, 0, 0, 0, 0, 0]"
  by (simp add: TaskStatus_serialize_def TaskRunStatus_serialize_def canceledStatus_def
      write_time_def write_bool_def write_uint_def)

lemma echoInfo_bytes:
  "TaskCreateInfo_serialize echoInfo [] =
     [7, 0, 0, 0, 101, 99, 104, 111, 32, 104, 105,
      1, 0, 0, 0, 0, 0, 0, 0, 3, 0, 0, 0, 67, 80, 85,
      0, 0, 0, 0, 0, 0, 0, 0]"
  by (simp add: TaskCreateInfo_serialize_def TaskSchedule_serialize_def echoInfo_def
      write_string_def write_uint_def)

theorem serialization_roundtrip_witness:
  "resources_fit (requiredResources (schedule echoInfo)) \<and>
   resources_fit (optionalResources (schedule echoInfo)) \<and>
   status_fits canceledStatus \<and> string_fits (command echoInfo) \<and>
   (\<exists>s'. TaskSchedule_deserialize (TaskSchedule_serialize (schedule echoInfo) [] @ [9]) blankSchedule =
           Some (s', [9]) \<and>
         requiredResources s' = [''CPU''] \<and> optionalResources s' = []) \<and>
   TaskStatus_deserialize
     ([255, 255, 255, 255, 255, 255, 255, 255, 1, 1, 1, 0, 0, 0, 0, 0, 0, 0, 7, 0, 0, 0, 0, 0, 0, 0] @ [9])
     \<lparr>wasCanceled = False, startTime = 0, heartbeatTime = 0\<rparr> (m_status blankTask) =
     Some (canceledStatus, [9]) \<and>
   (\<exists>info'. TaskCreateInfo_deserialize
       ([7, 0, 0, 0, 101, 99, 104, 111, 32, 104, 105,
         1, 0, 0, 0, 0, 0, 0, 0, 3, 0, 0, 0, 67, 80, 85,
         0, 0, 0, 0, 0, 0, 0, 0] @ [9]) (wantInfo []) = Some (info', [9]) \<and>
      command info' = ''echo hi'' \<and> requiredResources (schedule info') = [''CPU''] \<and>
      optionalResources (schedule info') = [])"
proof -
  have f: "resources_fit (requiredResources (schedule echoInfo))"
    "resources_fit (optionalResources (schedule echoInfo))"
    "status_fits canceledStatus" "string_fits (command echoInfo)"
    by (simp_all add: resources_fit_def string_fits_def status_fits_def time_fits_def
        echoInfo_def canceledStatus_def)
  have e: "requiredResources (schedule echoInfo) = [''CPU'']"
    "optionalResources (schedule echoInfo) = []" "command echoInfo = ''echo hi''"
    by (simp_all add: echoInfo_def)
  from serialization_roundtrip [where s = "schedule echoInfo" and rest = "[9]"
      and self = blankSchedule and st = canceledStatus
      and runStatusVal = "\<lparr>wasCanceled = False, startTime = 0, heartbeatTime = 0\<rparr>"
      and self_st = "m_status blankTask" and info = echoInfo and self_info = "wantInfo []"] f
  show ?thesis
    unfolding canceledStatus_bytes echoInfo_bytes e by simp
qed

end
